theory Spec2Isabelle
  imports Main "HOL-Library.AList" "HOL-Library.Word"
begin

section \<open>The broker loop of \<^verbatim>\<open>PROGRAM::run\<close> (src/program.cpp)\<close>

text \<open>
  \<^verbatim>\<open>PROGRAM::run\<close> is a single-threaded loop over three collaborators: the signal bridge
  (\<^verbatim>\<open>signals\<close>), the socket multiplexer (\<^verbatim>\<open>sockets\<close>) and the clock. Everything the loop
  reads from them in one iteration is an input of the model (\<open>events\<close>); every call it
  makes on \<^verbatim>\<open>sockets\<close> that reads a queue or changes the multiplexer, and every log
  line, is appended to the field \<open>calls\<close> of the state, in program order. The getters
  \<^verbatim>\<open>get_host\<close> and \<^verbatim>\<open>get_port\<close> only feed the log texts and are left out, as are the
  signal mask (lines 88, 116) and the timer (lines 83, 114), which touch none of the
  variables. The local variables of \<^verbatim>\<open>run\<close> are the other fields of the state.

  Descriptors are C \<^verbatim>\<open>int\<close>s and timestamps \<^verbatim>\<open>long long\<close> seconds; both are \<open>int\<close> here
  (the loop adds 1 to a timestamp and subtracts two timestamps, and signed overflow is
  undefined in C++). Sizes and the two \<^verbatim>\<open>uint32_t\<close> options are only compared, never
  computed with, and are \<open>nat\<close>.
\<close>

subsection \<open>Configuration and inputs\<close>

type_synonym descriptor = int
type_synonym bytes = "8 word list"

text \<open>
  What stays fixed while the loop runs: the value \<^verbatim>\<open>SOCKETS::NO_DESCRIPTOR\<close> (declared in
  sockets.h, which is not among the sources, hence a parameter), the three results of
  \<^verbatim>\<open>sockets->listen\<close> (lines 33-47) and the options read through the getters
  (lines 515-525).
\<close>

record env =
  NO_DESCRIPTOR :: descriptor
  supply_descriptor :: descriptor
  demand_descriptor :: descriptor
  driver_descriptor :: descriptor
  idle_timeout :: nat
  driver_period :: nat
  is_verbose :: bool

datatype signal = SIGALRM | SIGPIPE | SIGINT | SIGTERM | SIGQUIT

text \<open>
  One iteration's inputs. Each queue field lists the values the matching
  \<^verbatim>\<open>sockets->next_...()\<close> returns from its first call in the iteration on; once the list
  is used up the call returns \<^verbatim>\<open>NO_DESCRIPTOR\<close>. A connection comes with the value of
  \<^verbatim>\<open>get_listener\<close>, an incoming event with the bytes \<^verbatim>\<open>swap_incoming\<close> hands over.
\<close>

record events =
  signals :: "signal list"
  serve_result :: bool
  now :: int
  disconnections :: "descriptor list"
  connections :: "(descriptor \<times> descriptor) list"
  incoming :: "(descriptor \<times> bytes) list"

subsection \<open>Calls and log lines\<close>

datatype log_line =
    Listening
  | Caught_signal signal
  | Serve_error
  | Disconnected descriptor
  | New_connection descriptor
  | Forbidden_condition nat
  | Bytes_sent nat descriptor descriptor
  | Timed_out descriptor

datatype call =
    Serve bool
  | Next_disconnection descriptor
  | Next_connection descriptor
  | Next_incoming descriptor
  | Swap_incoming descriptor
  | Disconnect descriptor
  | Freeze descriptor
  | Unfreeze descriptor
  | Writef descriptor string
  | Append_outgoing descriptor bytes
  | Log log_line

text \<open>
  The text of \<^verbatim>\<open>writef(d, "%lu\n", n)\<close>: the decimal digits of \<open>n\<close>, most significant
  first, and a line feed.
\<close>

fun decimal :: "nat \<Rightarrow> string" where
  "decimal n = (if n < 10 then [char_of (48 + n)] else decimal (n div 10) @ [char_of (48 + n mod 10)])"

declare decimal.simps [simp del]

definition lu_line :: "nat \<Rightarrow> string" where
  "lu_line n = decimal n @ [CHR 0x0A]"

subsection \<open>State\<close>

text \<open>
  \<^verbatim>\<open>std::unordered_map\<close> is an association list with one pair per key,
  \<^verbatim>\<open>std::unordered_set\<close> a list without repetition. The order in which C++ iterates over
  them is unspecified; the model iterates in list order and \<^verbatim>\<open>begin()\<close> is the head.
  The statements below speak of \<open>set\<close> and \<open>map_of\<close> and hold for every order of the
  lists in the state they start from.
\<close>

record state =
  terminated :: bool
  status :: int
  alarmed :: bool
  new_demand :: nat
  timestamp_map :: "(descriptor \<times> int) list"
  supply_map :: "(descriptor \<times> descriptor) list"
  demand_map :: "(descriptor \<times> descriptor) list"
  unmet_supply :: "descriptor list"
  unmet_demand :: "descriptor list"
  drivers :: "descriptor list"
  calls :: "call list"

definition EXIT_SUCCESS :: int where "EXIT_SUCCESS = 0"
definition EXIT_FAILURE :: int where "EXIT_FAILURE = 1"

definition call :: "call \<Rightarrow> state \<Rightarrow> state" where
  "call c st = st\<lparr>calls := calls st @ [c]\<rparr>"

definition log :: "log_line \<Rightarrow> state \<Rightarrow> state" where
  "log l st = call (Log l) st"

text \<open>\<^verbatim>\<open>m.count(k)\<close>, \<^verbatim>\<open>m.erase(k)\<close>, \<^verbatim>\<open>m[k] = v\<close> and \<^verbatim>\<open>s.insert(k)\<close>, \<^verbatim>\<open>s.erase(k)\<close>.\<close>

definition count :: "('k \<times> 'v) list \<Rightarrow> 'k \<Rightarrow> bool" where
  "count m k = (map_of m k \<noteq> None)"

text \<open>
  Reading \<^verbatim>\<open>m[k]\<close>: \<^verbatim>\<open>operator[]\<close> of \<^verbatim>\<open>std::unordered_map\<close> inserts a value-initialised
  entry (0) when the key is missing and returns it.
\<close>

definition subscript :: "('k \<times> int) list \<Rightarrow> 'k \<Rightarrow> int \<times> ('k \<times> int) list" where
  "subscript m k = (case map_of m k of Some v \<Rightarrow> (v, m) | None \<Rightarrow> (0, m @ [(k, 0)]))"

subsection \<open>Lines 23-83: before the loop\<close>

text \<open>
  The state \<^verbatim>\<open>run\<close> enters the loop with, given the results of the three \<^verbatim>\<open>listen\<close> calls
  (the early returns of lines 24-29 never reach the loop).
\<close>

definition start :: "env \<Rightarrow> state" where
  "start env =
    (let failed = (supply_descriptor env = NO_DESCRIPTOR env \<or> demand_descriptor env = NO_DESCRIPTOR env)
     in \<lparr>terminated = failed,
         status = (if failed then EXIT_FAILURE else EXIT_SUCCESS),
         alarmed = False,
         new_demand = 0,
         timestamp_map = [],
         supply_map = [],
         demand_map = [],
         unmet_supply = [],
         unmet_demand = [],
         drivers = [],
         calls = (if failed then [] else [Log Listening])\<rparr>)"

subsection \<open>Lines 88-116: signal intake\<close>

fun on_signal :: "state \<Rightarrow> signal \<Rightarrow> state" where
  "on_signal st SIGALRM = st\<lparr>alarmed := True\<rparr>"
| "on_signal st SIGINT = log (Caught_signal SIGINT) (st\<lparr>terminated := True\<rparr>)"
| "on_signal st SIGTERM = log (Caught_signal SIGTERM) (st\<lparr>terminated := True\<rparr>)"
| "on_signal st SIGQUIT = log (Caught_signal SIGQUIT) (st\<lparr>terminated := True\<rparr>)"
| "on_signal st SIGPIPE = log (Caught_signal SIGPIPE) st"

subsection \<open>Lines 135-175: disconnections\<close>

text \<open>Lines 150-163: the partner recorded for \<open>d\<close>, and the tables without \<open>d\<close>.\<close>

definition take_peer :: "env \<Rightarrow> state \<Rightarrow> descriptor \<Rightarrow> descriptor \<times> state" where
  "take_peer env st d =
    (if count (supply_map st) d
     then (the (map_of (supply_map st) d), st\<lparr>supply_map := AList.delete d (supply_map st)\<rparr>)
     else if count (demand_map st) d
     then (the (map_of (demand_map st) d), st\<lparr>demand_map := AList.delete d (demand_map st)\<rparr>)
     else (NO_DESCRIPTOR env,
           st\<lparr>unmet_supply := removeAll d (unmet_supply st),
              unmet_demand := removeAll d (unmet_demand st)\<rparr>))"

text \<open>Lines 165-174: the partner's own entry loses its peer, and the partner is closed.\<close>

definition drop_peer :: "env \<Rightarrow> state \<Rightarrow> descriptor \<Rightarrow> state" where
  "drop_peer env st other_descriptor =
    (if other_descriptor \<noteq> NO_DESCRIPTOR env
     then call (Disconnect other_descriptor)
            (if count (supply_map st) other_descriptor
             then st\<lparr>supply_map := AList.update other_descriptor (NO_DESCRIPTOR env) (supply_map st)\<rparr>
             else if count (demand_map st) other_descriptor
             then st\<lparr>demand_map := AList.update other_descriptor (NO_DESCRIPTOR env) (demand_map st)\<rparr>
             else st)
     else st)"

definition on_disconnection :: "env \<Rightarrow> state \<Rightarrow> descriptor \<Rightarrow> state" where
  "on_disconnection env st d =
    (let st1 = log (Disconnected d) st;
         st2 = st1\<lparr>timestamp_map := AList.delete d (timestamp_map st1)\<rparr>
     in if d \<in> set (drivers st2)
        then st2\<lparr>drivers := removeAll d (drivers st2)\<rparr>
        else (let (other_descriptor, st3) = take_peer env st2 d
              in drop_peer env st3 other_descriptor))"

fun drain_disconnections :: "env \<Rightarrow> state \<Rightarrow> descriptor list \<Rightarrow> state" where
  "drain_disconnections env st [] = call (Next_disconnection (NO_DESCRIPTOR env)) st"
| "drain_disconnections env st (d # ds) =
    (if d = NO_DESCRIPTOR env then call (Next_disconnection d) st
     else drain_disconnections env (on_disconnection env (call (Next_disconnection d) st) d) ds)"

subsection \<open>Lines 179-230: new connections\<close>

definition on_supply :: "int \<Rightarrow> state \<Rightarrow> descriptor \<Rightarrow> state" where
  "on_supply timestamp st d =
    (if unmet_demand st = []
     then call (Freeze d) (st\<lparr>unmet_supply := List.insert d (unmet_supply st)\<rparr>)
     else (let other_descriptor = hd (unmet_demand st)
           in (call (Unfreeze other_descriptor)
                (st\<lparr>unmet_demand := removeAll other_descriptor (unmet_demand st),
                    supply_map := AList.update d other_descriptor (supply_map st),
                    demand_map := AList.update other_descriptor d (demand_map st)\<rparr>))
              \<lparr>timestamp_map := AList.update other_descriptor timestamp (timestamp_map st)\<rparr>))"

definition on_demand :: "int \<Rightarrow> state \<Rightarrow> descriptor \<Rightarrow> state" where
  "on_demand timestamp st d =
    (if unmet_supply st = []
     then (call (Freeze d) (st\<lparr>unmet_demand := List.insert d (unmet_demand st)\<rparr>))
            \<lparr>new_demand := new_demand st + 1\<rparr>
     else (let other_descriptor = hd (unmet_supply st)
           in (call (Unfreeze other_descriptor)
                (st\<lparr>unmet_supply := removeAll other_descriptor (unmet_supply st),
                    demand_map := AList.update d other_descriptor (demand_map st),
                    supply_map := AList.update other_descriptor d (supply_map st)\<rparr>))
              \<lparr>timestamp_map := AList.update other_descriptor timestamp (timestamp_map st)\<rparr>))"

definition on_driver :: "int \<Rightarrow> state \<Rightarrow> descriptor \<Rightarrow> state" where
  "on_driver timestamp st d =
    call (Writef d (lu_line (length (unmet_demand st))))
      (st\<lparr>drivers := List.insert d (drivers st),
          timestamp_map := AList.update d (timestamp + 1) (timestamp_map st)\<rparr>)"

definition on_connection :: "env \<Rightarrow> int \<Rightarrow> state \<Rightarrow> descriptor \<times> descriptor \<Rightarrow> state" where
  "on_connection env timestamp st c =
    (let d = fst c; listener = snd c;
         st1 = log (New_connection d) st;
         st2 = st1\<lparr>timestamp_map := AList.update d timestamp (timestamp_map st1)\<rparr>
     in if listener = supply_descriptor env then on_supply timestamp st2 d
        else if listener = demand_descriptor env then on_demand timestamp st2 d
        else if listener = driver_descriptor env \<and> driver_descriptor env \<noteq> NO_DESCRIPTOR env
        then on_driver timestamp st2 d
        else log (Forbidden_condition 229) st2)"

fun drain_connections :: "env \<Rightarrow> int \<Rightarrow> state \<Rightarrow> (descriptor \<times> descriptor) list \<Rightarrow> state" where
  "drain_connections env timestamp st [] = call (Next_connection (NO_DESCRIPTOR env)) st"
| "drain_connections env timestamp st (c # cs) =
    (if fst c = NO_DESCRIPTOR env then call (Next_connection (fst c)) st
     else drain_connections env timestamp
            (on_connection env timestamp (call (Next_connection (fst c)) st) c) cs)"

subsection \<open>Lines 232-258: publication to the drivers\<close>

definition publish_one :: "env \<Rightarrow> int \<Rightarrow> state \<Rightarrow> descriptor \<Rightarrow> state" where
  "publish_one env timestamp st driver =
    (let (last, m) = subscript (timestamp_map st) driver;
         st1 = st\<lparr>timestamp_map := m\<rparr>
     in if last > timestamp
        then st1\<lparr>timestamp_map := AList.update driver timestamp m\<rparr>
        else if new_demand st1 = 0
        then (if driver_period env = 0 \<or> timestamp - last < int (driver_period env)
              then st1
              else (call (Writef driver (lu_line (length (unmet_demand st1)))) st1)
                     \<lparr>timestamp_map := AList.update driver timestamp m\<rparr>)
        else (call (Writef driver (lu_line (new_demand st1))) st1)
               \<lparr>timestamp_map := AList.update driver timestamp m\<rparr>)"

definition publish :: "env \<Rightarrow> int \<Rightarrow> state \<Rightarrow> state" where
  "publish env timestamp st =
    (if new_demand st \<noteq> 0 \<or> alarmed st
     then foldl (publish_one env timestamp) st (drivers st)
     else st)"

subsection \<open>Lines 260-295: incoming bytes\<close>

definition forward_target :: "env \<Rightarrow> state \<Rightarrow> descriptor \<Rightarrow> descriptor" where
  "forward_target env st d =
    (if count (supply_map st) d then the (map_of (supply_map st) d)
     else if count (demand_map st) d then the (map_of (demand_map st) d)
     else NO_DESCRIPTOR env)"

definition forward :: "env \<Rightarrow> int \<Rightarrow> state \<Rightarrow> descriptor \<Rightarrow> bytes \<Rightarrow> state" where
  "forward env timestamp st d buffer =
    (let forward_to = forward_target env st d
     in if forward_to = NO_DESCRIPTOR env then log (Forbidden_condition 274) st
        else (let st1 = (if is_verbose env then log (Bytes_sent (length buffer) d forward_to) st else st);
                  st2 = call (Append_outgoing forward_to buffer) st1
              in st2\<lparr>timestamp_map := AList.update forward_to timestamp (timestamp_map st2)\<rparr>))"

definition on_incoming :: "env \<Rightarrow> int \<Rightarrow> state \<Rightarrow> descriptor \<times> bytes \<Rightarrow> state" where
  "on_incoming env timestamp st i =
    (let d = fst i; buffer = snd i;
         st1 = call (Swap_incoming d) st;
         st2 = (if d \<notin> set (drivers st1) then forward env timestamp st1 d buffer else st1)
     in st2\<lparr>timestamp_map := AList.update d timestamp (timestamp_map st2)\<rparr>)"

fun drain_incoming :: "env \<Rightarrow> int \<Rightarrow> state \<Rightarrow> (descriptor \<times> bytes) list \<Rightarrow> state" where
  "drain_incoming env timestamp st [] = call (Next_incoming (NO_DESCRIPTOR env)) st"
| "drain_incoming env timestamp st (i # is) =
    (if fst i = NO_DESCRIPTOR env then call (Next_incoming (fst i)) st
     else drain_incoming env timestamp
            (on_incoming env timestamp (call (Next_incoming (fst i)) st) i) is)"

subsection \<open>Lines 297-314: the idle reaper\<close>

definition reap_one :: "env \<Rightarrow> int \<Rightarrow> state \<Rightarrow> descriptor \<times> int \<Rightarrow> state" where
  "reap_one env timestamp st p =
    (if timestamp - snd p \<ge> int (idle_timeout env)
     then call (Disconnect (fst p))
            (if is_verbose env then log (Timed_out (fst p)) st else st)
     else st)"

definition idle_reap :: "env \<Rightarrow> int \<Rightarrow> state \<Rightarrow> state" where
  "idle_reap env timestamp st =
    (if idle_timeout env > 0 \<and> alarmed st
     then foldl (reap_one env timestamp) st (timestamp_map st)
     else st)"

subsection \<open>Lines 85-316: the loop\<close>

text \<open>Lines 118-124: what the body does once \<^verbatim>\<open>terminated\<close> is set.\<close>

definition shut_listeners :: "env \<Rightarrow> state \<Rightarrow> state" where
  "shut_listeners env st =
    call (Disconnect (driver_descriptor env))
      (call (Disconnect (supply_descriptor env))
        (call (Disconnect (demand_descriptor env)) st))"

text \<open>Lines 126-130: \<^verbatim>\<open>serve\<close> is called only when no alarm was taken in.\<close>

definition poll :: "bool \<Rightarrow> state \<Rightarrow> state" where
  "poll ok st =
    (if alarmed st then st
     else (let st1 = call (Serve ok) st
           in if ok then st1
              else (log Serve_error st1)\<lparr>status := EXIT_FAILURE, terminated := True\<rparr>))"

text \<open>One pass through the body of the \<^verbatim>\<open>do ... while\<close>.\<close>

definition iteration :: "env \<Rightarrow> state \<Rightarrow> events \<Rightarrow> state" where
  "iteration env st ev =
    (let st1 = foldl on_signal (st\<lparr>alarmed := False\<rparr>) (signals ev)
     in if terminated st1 then shut_listeners env st1
        else (let st2 = poll (serve_result ev) st1;
                  timestamp = now ev;
                  st3 = drain_disconnections env st2 (disconnections ev);
                  st4 = st3\<lparr>new_demand := 0\<rparr>;
                  st5 = drain_connections env timestamp st4 (connections ev);
                  st6 = publish env timestamp st5;
                  st7 = drain_incoming env timestamp st6 (incoming ev)
              in idle_reap env timestamp st7))"

text \<open>
  The loop: \<^verbatim>\<open>do { body } while (!terminated)\<close>. A \<^verbatim>\<open>continue\<close> in the body of a
  \<^verbatim>\<open>do ... while\<close> jumps to the test. The list holds the inputs of the iterations to
  come; \<open>None\<close> means the loop is still running when they are used up, \<open>Some\<close> is the
  state the loop is left with and the inputs it never looked at.
\<close>

fun run_loop :: "env \<Rightarrow> state \<Rightarrow> events list \<Rightarrow> (state \<times> events list) option" where
  "run_loop env st [] = None"
| "run_loop env st (ev # evs) =
    (let st' = iteration env st ev
     in if terminated st' then Some (st', evs) else run_loop env st' evs)"

text \<open>The states at the end of each iteration the loop performs, first to last.\<close>

fun loop_states :: "env \<Rightarrow> state \<Rightarrow> events list \<Rightarrow> state list" where
  "loop_states env st [] = []"
| "loop_states env st (ev # evs) =
    (let st' = iteration env st ev
     in st' # (if terminated st' then [] else loop_states env st' evs))"


section \<open>Properties\<close>

subsection \<open>Definitions used in the statements\<close>

text \<open>A concrete configuration and a quiet iteration, for the examples.\<close>

definition env0 :: env where
  "env0 = \<lparr>NO_DESCRIPTOR = -1, supply_descriptor = 3, demand_descriptor = 4, driver_descriptor = 5,
            idle_timeout = 3, driver_period = 2, is_verbose = False\<rparr>"

definition quiet :: events where
  "quiet = \<lparr>signals = [], serve_result = True, now = 100, disconnections = [],
            connections = [], incoming = []\<rparr>"

definition tables :: "state \<Rightarrow> (descriptor \<times> descriptor) list \<times> (descriptor \<times> descriptor) list \<times> descriptor list \<times> descriptor list \<times> descriptor list" where
  "tables st = (supply_map st, demand_map st, unmet_supply st, unmet_demand st, drivers st)"

definition no_double_match :: "state \<Rightarrow> bool" where
  "no_double_match st = (unmet_supply st = [] \<or> unmet_demand st = [])"

definition keys :: "('k \<times> 'v) list \<Rightarrow> 'k set" where
  "keys m = fst ` set m"

definition sym :: "descriptor \<Rightarrow> (descriptor \<rightharpoonup> descriptor) \<Rightarrow> (descriptor \<rightharpoonup> descriptor) \<Rightarrow> bool" where
  "sym n S D = (\<forall>s d. S s = Some d \<and> d \<noteq> n \<longrightarrow> D d = Some s)"

definition peers_symmetric :: "env \<Rightarrow> state \<Rightarrow> bool" where
  "peers_symmetric env st =
    ((\<forall>s d. map_of (supply_map st) s = Some d \<and> d \<noteq> NO_DESCRIPTOR env
        \<longrightarrow> map_of (demand_map st) d = Some s) \<and>
     (\<forall>d s. map_of (demand_map st) d = Some s \<and> s \<noteq> NO_DESCRIPTOR env
        \<longrightarrow> map_of (supply_map st) s = Some d))"

definition tracked :: "state \<Rightarrow> descriptor set" where
  "tracked st =
    keys (supply_map st) \<union> keys (demand_map st) \<union> set (unmet_supply st) \<union> set (unmet_demand st)
      \<union> set (drivers st)"

definition roles_disjoint :: "state \<Rightarrow> bool" where
  "roles_disjoint st =
    (keys (supply_map st) \<inter> keys (demand_map st) = {} \<and>
     (set (unmet_supply st) \<union> set (unmet_demand st)) \<inter> (keys (supply_map st) \<union> keys (demand_map st)) = {} \<and>
     set (drivers st) \<inter>
       (keys (supply_map st) \<union> keys (demand_map st) \<union> set (unmet_supply st) \<union> set (unmet_demand st)) = {})"

definition engine_inv :: "env \<Rightarrow> state \<Rightarrow> bool" where
  "engine_inv env st =
    (peers_symmetric env st \<and> no_double_match st \<and> roles_disjoint st \<and> NO_DESCRIPTOR env \<notin> tracked st)"

definition shrinks :: "state \<Rightarrow> state \<Rightarrow> bool" where
  "shrinks st' st =
    (keys (supply_map st') \<subseteq> keys (supply_map st) \<and> keys (demand_map st') \<subseteq> keys (demand_map st) \<and>
     set (unmet_supply st') \<subseteq> set (unmet_supply st) \<and> set (unmet_demand st') \<subseteq> set (unmet_demand st) \<and>
     set (drivers st') \<subseteq> set (drivers st))"

text \<open>The state of an iteration once its disconnections are drained (line 177).\<close>

definition before_connections :: "env \<Rightarrow> state \<Rightarrow> events \<Rightarrow> state" where
  "before_connections env st ev =
    (drain_disconnections env
       (poll (serve_result ev) (foldl on_signal (st\<lparr>alarmed := False\<rparr>) (signals ev)))
       (disconnections ev))\<lparr>new_demand := 0\<rparr>"

text \<open>
  What the statements about the tables assume of the multiplexer: the descriptors of one
  batch of new connections differ from each other, and none of them is in a table of the
  broker once the disconnections of the same iteration are processed (a descriptor is
  not handed out again before its disconnection is reported).
\<close>

definition fresh_connections :: "env \<Rightarrow> state \<Rightarrow> events \<Rightarrow> bool" where
  "fresh_connections env st ev =
    (distinct (map fst (connections ev)) \<and>
     (\<forall>c \<in> set (connections ev). fst c \<notin> tracked (before_connections env st ev)))"

fun fresh_run :: "env \<Rightarrow> state \<Rightarrow> events list \<Rightarrow> bool" where
  "fresh_run env st [] = True"
| "fresh_run env st (ev # evs) =
    (fresh_connections env st ev \<and>
     (let st' = iteration env st ev in if terminated st' then True else fresh_run env st' evs))"

text \<open>A run of four iterations: queueing, pairing, a disconnection with traffic, a reconnection.\<close>

definition example_run :: "events list" where
  "example_run = [quiet\<lparr>connections := [(10, 3), (11, 3)]\<rparr>,
         quiet\<lparr>connections := [(12, 4), (13, 4), (14, 4)]\<rparr>,
         quiet\<lparr>now := 101, disconnections := [12], incoming := [(13, [104, 105])]\<rparr>,
         quiet\<lparr>now := 102, disconnections := [10, 11], connections := [(10, 3)]\<rparr>]"

text \<open>
  Modelled from the spec: the frozen set of the multiplexer. Class \<^verbatim>\<open>SOCKETS\<close> (sockets.h)
  is not among the sources. By the spec (sections 3 and 4.1) the frozen flag is an
  attribute of a connection, \<^verbatim>\<open>freeze(d)\<close> sets it and \<^verbatim>\<open>unfreeze(d)\<close> clears it, and a
  connection that \<^verbatim>\<open>next_disconnection()\<close> has reported is closed, so it has no flag any
  more. The set is computed from the calls the loop has made, oldest first.
\<close>

fun frozen_step :: "descriptor set \<Rightarrow> call \<Rightarrow> descriptor set" where
  "frozen_step F (Freeze d) = insert d F"
| "frozen_step F (Unfreeze d) = F - {d}"
| "frozen_step F (Next_disconnection d) = F - {d}"
| "frozen_step F _ = F"

definition frozen :: "state \<Rightarrow> descriptor set" where
  "frozen st = foldl frozen_step {} (calls st)"

definition unmet :: "state \<Rightarrow> descriptor set" where
  "unmet st = set (unmet_supply st) \<union> set (unmet_demand st)"

text \<open>The calls that leave the frozen set as it is.\<close>

fun mux_neutral :: "call \<Rightarrow> bool" where
  "mux_neutral (Freeze d) = False"
| "mux_neutral (Unfreeze d) = False"
| "mux_neutral (Next_disconnection d) = False"
| "mux_neutral _ = True"

text \<open>\<open>st'\<close> has the calls of \<open>st\<close> and then only calls that satisfy \<open>P\<close>.\<close>

definition extends :: "(call \<Rightarrow> bool) \<Rightarrow> state \<Rightarrow> state \<Rightarrow> bool" where
  "extends P st st' = (\<exists>cs. calls st' = calls st @ cs \<and> list_all P cs)"

text \<open>Lines 86-112: the state after the signals of the iteration are taken in.\<close>

definition intake :: "state \<Rightarrow> events \<Rightarrow> state" where
  "intake st ev = foldl on_signal (st\<lparr>alarmed := False\<rparr>) (signals ev)"

text \<open>Lines 132-314: the body from the timestamp on.\<close>

definition rest_of_body :: "env \<Rightarrow> events \<Rightarrow> state \<Rightarrow> state" where
  "rest_of_body env ev st =
    idle_reap env (now ev)
      (drain_incoming env (now ev)
        (publish env (now ev)
          (drain_connections env (now ev)
            ((drain_disconnections env st (disconnections ev))\<lparr>new_demand := 0\<rparr>)
            (connections ev)))
        (incoming ev))"

text \<open>The signals of lines 97-99.\<close>

definition deadly :: "signal \<Rightarrow> bool" where
  "deadly s = (s = SIGINT \<or> s = SIGTERM \<or> s = SIGQUIT)"

text \<open>The two variables that nothing after the poll writes.\<close>

definition flags :: "state \<Rightarrow> bool \<times> int" where
  "flags st = (terminated st, status st)"

text \<open>Three iterations: a supply connection, then a signal or a failed poll, then what would follow.\<close>

definition ev_connect :: events where
  "ev_connect = quiet\<lparr>connections := [(10, 3)]\<rparr>"

definition ev_term :: events where
  "ev_term = quiet\<lparr>signals := [SIGTERM], disconnections := [10]\<rparr>"

definition ev_fail :: events where
  "ev_fail = quiet\<lparr>serve_result := False, disconnections := [10]\<rparr>"

definition ev_after :: events where
  "ev_after = quiet\<lparr>disconnections := [10]\<rparr>"

text \<open>The texts written to \<open>d\<close> by the \<^verbatim>\<open>writef\<close> calls of a list of calls, oldest first.\<close>

fun written :: "descriptor \<Rightarrow> call list \<Rightarrow> string list" where
  "written d [] = []"
| "written d (Writef d' text # cs) = (if d' = d then text # written d cs else written d cs)"
| "written d (c # cs) = written d cs"

text \<open>
  What one pass of lines 234-256 writes to the driver \<open>d\<close>: nothing when its timestamp
  is ahead of \<open>timestamp\<close>; else the new demand when there is some; else, when the period
  has run out, the size of \<open>unmet_demand\<close>. A missing timestamp reads as 0.
\<close>

definition last_activity :: "state \<Rightarrow> descriptor \<Rightarrow> int" where
  "last_activity st d = (case map_of (timestamp_map st) d of Some v \<Rightarrow> v | None \<Rightarrow> 0)"

definition published :: "env \<Rightarrow> int \<Rightarrow> state \<Rightarrow> descriptor \<Rightarrow> string list" where
  "published env timestamp st d =
    (if last_activity st d > timestamp then []
     else if new_demand st \<noteq> 0 then [lu_line (new_demand st)]
     else if driver_period env = 0 \<or> timestamp - last_activity st d < int (driver_period env) then []
     else [lu_line (length (unmet_demand st))])"

text \<open>Calls other than \<^verbatim>\<open>writef\<close> write nothing.\<close>

fun no_writef :: "call \<Rightarrow> bool" where
  "no_writef (Writef d text) = False"
| "no_writef _ = True"

text \<open>The connections of a batch taken from the queue one after the other.\<close>

definition connect_all :: "env \<Rightarrow> int \<Rightarrow> state \<Rightarrow> (descriptor \<times> descriptor) list \<Rightarrow> state" where
  "connect_all env t st cs = foldl (\<lambda>s c. on_connection env t (call (Next_connection (fst c)) s) c) st cs"

text \<open>The two locals that only the head of the body and the connections write.\<close>

definition counters :: "state \<Rightarrow> nat \<times> bool" where
  "counters st = (new_demand st, alarmed st)"

text \<open>An iteration in which a driver connects between two demand connections.\<close>

definition ev_driver :: events where
  "ev_driver = quiet\<lparr>connections := [(21, 4), (20, 5), (22, 4)]\<rparr>"

text \<open>An iteration in which the driver 20 sends two bytes.\<close>

definition ev_bytes :: events where
  "ev_bytes = quiet\<lparr>incoming := [(20, [104, 105])]\<rparr>"

text \<open>The descriptors of the \<^verbatim>\<open>disconnect\<close> calls in a list of calls, oldest first.\<close>

fun disconnects :: "call list \<Rightarrow> descriptor list" where
  "disconnects [] = []"
| "disconnects (Disconnect d # cs) = d # disconnects cs"
| "disconnects (c # cs) = disconnects cs"

text \<open>
  The entries of \<open>timestamp_map\<close> the reaper closes at \<open>timestamp\<close>, in the order of the map
  (line 301).
\<close>

definition timed_out :: "env \<Rightarrow> int \<Rightarrow> state \<Rightarrow> descriptor list" where
  "timed_out env timestamp st =
    map fst (filter (\<lambda>p. timestamp - snd p \<ge> int (idle_timeout env)) (timestamp_map st))"

text \<open>The state the reaper of an iteration starts from (line 296).\<close>

definition before_reap :: "env \<Rightarrow> state \<Rightarrow> events \<Rightarrow> state" where
  "before_reap env st ev =
    drain_incoming env (now ev)
      (publish env (now ev)
        (drain_connections env (now ev) (before_connections env st ev) (connections ev)))
      (incoming ev)"

text \<open>Two supply connections, accepted at 100 and at 103, and an alarm at 103 or with the clock back at 99.\<close>

definition st_reap :: state where
  "st_reap = iteration env0 (iteration env0 (start env0) (quiet\<lparr>connections := [(10, 3)]\<rparr>))
               (quiet\<lparr>now := 103, connections := [(11, 3)]\<rparr>)"

definition ev_alarm :: events where
  "ev_alarm = quiet\<lparr>signals := [SIGALRM], now := 103\<rparr>"

definition ev_alarm_back :: events where
  "ev_alarm_back = quiet\<lparr>signals := [SIGALRM], now := 99\<rparr>"




text \<open>A connection whose listener (9) is none of the three, and a demand connection after it.\<close>

definition ev_stray :: events where
  "ev_stray = quiet\<lparr>connections := [(30, 9)]\<rparr>"

definition stray :: "descriptor \<times> descriptor" where
  "stray = (30, 9)"

definition ev_demand :: events where
  "ev_demand = quiet\<lparr>now := 101, connections := [(31, 4)]\<rparr>"

text \<open>An alarm and a termination signal taken in by the same iteration, at 103.\<close>

definition ev_alarm_term :: events where
  "ev_alarm_term = quiet\<lparr>signals := [SIGALRM, SIGTERM], now := 103\<rparr>"

text \<open>
  The disconnections of lines 135-175, one after the other, without the last read of
  the queue that finds it empty.
\<close>

definition disconnect_all :: "env \<Rightarrow> state \<Rightarrow> descriptor list \<Rightarrow> state" where
  "disconnect_all env st ds = foldl (\<lambda>s d. on_disconnection env (call (Next_disconnection d) s) d) st ds"






subsection \<open>Which steps touch which tables\<close>

lemma call_fields [simp]:
  "terminated (call c st) = terminated st"
  "status (call c st) = status st"
  "alarmed (call c st) = alarmed st"
  "new_demand (call c st) = new_demand st"
  "timestamp_map (call c st) = timestamp_map st"
  "supply_map (call c st) = supply_map st"
  "demand_map (call c st) = demand_map st"
  "unmet_supply (call c st) = unmet_supply st"
  "unmet_demand (call c st) = unmet_demand st"
  "drivers (call c st) = drivers st"
  "calls (call c st) = calls st @ [c]"
  by (simp_all add: call_def)

lemma log_fields [simp]:
  "terminated (log l st) = terminated st"
  "status (log l st) = status st"
  "alarmed (log l st) = alarmed st"
  "new_demand (log l st) = new_demand st"
  "timestamp_map (log l st) = timestamp_map st"
  "supply_map (log l st) = supply_map st"
  "demand_map (log l st) = demand_map st"
  "unmet_supply (log l st) = unmet_supply st"
  "unmet_demand (log l st) = unmet_demand st"
  "drivers (log l st) = drivers st"
  "calls (log l st) = calls st @ [Log l]"
  by (simp_all add: log_def)

lemma tables_eqD:
  assumes "tables st' = tables st"
  shows "supply_map st' = supply_map st" "demand_map st' = demand_map st"
    "unmet_supply st' = unmet_supply st" "unmet_demand st' = unmet_demand st"
    "drivers st' = drivers st"
  using assms by (simp_all add: tables_def)

lemma tables_call [simp]: "tables (call c st) = tables st"
  by (simp add: tables_def)

lemma tables_log [simp]: "tables (log l st) = tables st"
  by (simp add: tables_def)

lemma tables_on_signal [simp]: "tables (on_signal st s) = tables st"
  by (cases s) (simp_all add: tables_def)

lemma tables_signals [simp]: "tables (foldl on_signal st ss) = tables st"
  by (induction ss arbitrary: st) simp_all

lemma tables_poll [simp]: "tables (poll ok st) = tables st"
  by (simp add: poll_def tables_def Let_def)

lemma tables_shut_listeners [simp]: "tables (shut_listeners env st) = tables st"
  by (simp add: shut_listeners_def)

lemma tables_publish_one [simp]: "tables (publish_one env t st d) = tables st"
  by (simp add: publish_one_def tables_def Let_def split: prod.splits)

lemma tables_publish_fold: "tables (foldl (publish_one env t) st ds) = tables st"
  by (induction ds arbitrary: st) simp_all

lemma tables_publish [simp]: "tables (publish env t st) = tables st"
  by (simp add: publish_def tables_publish_fold)

lemma tables_forward [simp]: "tables (forward env t st d b) = tables st"
  by (simp add: forward_def tables_def Let_def)

lemma tables_on_incoming [simp]: "tables (on_incoming env t st i) = tables st"
proof -
  have "tables (st'\<lparr>timestamp_map := m\<rparr>) = tables st'" for st' m
    by (simp add: tables_def)
  then show ?thesis by (simp add: on_incoming_def Let_def)
qed

lemma tables_drain_incoming [simp]: "tables (drain_incoming env t st is) = tables st"
  by (induction "is" arbitrary: st) simp_all

lemma tables_reap_one [simp]: "tables (reap_one env t st p) = tables st"
  by (simp add: reap_one_def)

lemma tables_reap_fold: "tables (foldl (reap_one env t) st ps) = tables st"
  by (induction ps arbitrary: st) simp_all

lemma tables_idle_reap [simp]: "tables (idle_reap env t st) = tables st"
  by (simp add: idle_reap_def tables_reap_fold)

text \<open>The tables at the end of an iteration that did not take the shutdown branch.\<close>

lemma tables_iteration:
  "tables (iteration env st ev) =
    (if terminated (foldl on_signal (st\<lparr>alarmed := False\<rparr>) (signals ev)) then tables st
     else tables (drain_connections env (now ev)
            ((drain_disconnections env (poll (serve_result ev)
                (foldl on_signal (st\<lparr>alarmed := False\<rparr>) (signals ev))) (disconnections ev))
              \<lparr>new_demand := 0\<rparr>) (connections ev)))"
proof -
  have "tables (st\<lparr>alarmed := False\<rparr>) = tables st" by (simp add: tables_def)
  then show ?thesis by (simp add: iteration_def Let_def)
qed

lemma no_double_match_tables:
  "tables st' = tables st \<Longrightarrow> no_double_match st' = no_double_match st"
  by (simp add: no_double_match_def tables_def)

lemma no_double_match_call [simp]: "no_double_match (call c st) = no_double_match st"
  by (simp add: no_double_match_def)

lemma on_disconnection_unmet:
  "set (unmet_supply (on_disconnection env st d)) \<subseteq> set (unmet_supply st)"
  "set (unmet_demand (on_disconnection env st d)) \<subseteq> set (unmet_demand st)"
  by (auto simp: on_disconnection_def take_peer_def drop_peer_def Let_def split: prod.splits if_splits)

lemma on_disconnection_ndm:
  "no_double_match st \<Longrightarrow> no_double_match (on_disconnection env st d)"
  using on_disconnection_unmet[of env st d] by (auto simp: no_double_match_def)

lemma drain_disconnections_ndm:
  "no_double_match st \<Longrightarrow> no_double_match (drain_disconnections env st ds)"
proof (induction ds arbitrary: st)
  case Nil
  then show ?case by simp
next
  case (Cons d ds)
  then show ?case using on_disconnection_ndm by simp
qed

lemma on_connection_ndm:
  "no_double_match st \<Longrightarrow> no_double_match (on_connection env t st c)"
  by (auto simp: no_double_match_def on_connection_def on_supply_def on_demand_def on_driver_def Let_def)

lemma drain_connections_ndm:
  "no_double_match st \<Longrightarrow> no_double_match (drain_connections env t st cs)"
proof (induction cs arbitrary: st)
  case Nil
  then show ?case by simp
next
  case (Cons c cs)
  then show ?case using on_connection_ndm by simp
qed

lemma iteration_ndm:
  assumes "no_double_match st"
  shows "no_double_match (iteration env st ev)"
proof -
  let ?st1 = "foldl on_signal (st\<lparr>alarmed := False\<rparr>) (signals ev)"
  let ?st2 = "poll (serve_result ev) ?st1"
  let ?st3 = "drain_disconnections env ?st2 (disconnections ev)"
  let ?st5 = "drain_connections env (now ev) (?st3\<lparr>new_demand := 0\<rparr>) (connections ev)"
  have t1: "tables ?st2 = tables st" by (simp add: tables_def[of "st\<lparr>alarmed := False\<rparr>"] tables_def[of st])
  then have "no_double_match ?st2" using assms no_double_match_tables by blast
  then have "no_double_match ?st3" by (rule drain_disconnections_ndm)
  then have "no_double_match (?st3\<lparr>new_demand := 0\<rparr>)" by (simp add: no_double_match_def)
  then have "no_double_match ?st5" by (rule drain_connections_ndm)
  then show ?thesis
    using assms tables_iteration[of env st ev]
    by (auto simp: no_double_match_def tables_def split: if_splits)
qed

lemma peers_symmetric_sym:
  "peers_symmetric env st \<longleftrightarrow>
     sym (NO_DESCRIPTOR env) (map_of (supply_map st)) (map_of (demand_map st)) \<and>
     sym (NO_DESCRIPTOR env) (map_of (demand_map st)) (map_of (supply_map st))"
  by (simp add: peers_symmetric_def sym_def)

lemma symD: "sym n S D \<Longrightarrow> S s = Some d \<Longrightarrow> d \<noteq> n \<Longrightarrow> D d = Some s"
  by (simp add: sym_def)

lemma symI: "(\<And>s d. S s = Some d \<Longrightarrow> d \<noteq> n \<Longrightarrow> D d = Some s) \<Longrightarrow> sym n S D"
  by (simp add: sym_def)

lemma sym_teardown:
  assumes "sym n S D" "sym n D S" "S d = Some p" "p \<noteq> n"
  shows "sym n (S(d := None)) (D(p \<mapsto> n))" "sym n (D(p \<mapsto> n)) (S(d := None))"
proof -
  have Dp: "D p = Some d" using symD[OF assms(1,3,4)] .
  show "sym n (S(d := None)) (D(p \<mapsto> n))"
  proof (rule symI)
    fix s x assume a: "(S(d := None)) s = Some x" "x \<noteq> n"
    then have sd: "s \<noteq> d" and Ss: "S s = Some x" by (simp_all split: if_splits)
    have Dx: "D x = Some s" using symD[OF assms(1) Ss a(2)] .
    have "x \<noteq> p" using Dx Dp sd by auto
    then show "(D(p \<mapsto> n)) x = Some s" using Dx by simp
  qed
  show "sym n (D(p \<mapsto> n)) (S(d := None))"
  proof (rule symI)
    fix x s assume a: "(D(p \<mapsto> n)) x = Some s" "s \<noteq> n"
    then have xp: "x \<noteq> p" and Dx: "D x = Some s" by (simp_all split: if_splits)
    have Ss: "S s = Some x" using symD[OF assms(2) Dx a(2)] .
    have "s \<noteq> d" using Ss assms(3) xp by auto
    then show "(S(d := None)) s = Some x" using Ss by simp
  qed
qed

lemma sym_teardown_alone:
  assumes "sym n S D" "sym n D S" "S d = Some n" "D n = None"
  shows "sym n (S(d := None)) D" "sym n D (S(d := None))"
proof -
  show "sym n (S(d := None)) D"
  proof (rule symI)
    fix s x assume a: "(S(d := None)) s = Some x" "x \<noteq> n"
    then have Ss: "S s = Some x" by (simp_all split: if_splits)
    show "D x = Some s" using symD[OF assms(1) Ss a(2)] .
  qed
  show "sym n D (S(d := None))"
  proof (rule symI)
    fix x s assume a: "D x = Some s" "s \<noteq> n"
    have Ss: "S s = Some x" using symD[OF assms(2) a] .
    have "s \<noteq> d" using Ss assms(3,4) a(1) by auto
    then show "(S(d := None)) s = Some x" using Ss by simp
  qed
qed

lemma sym_pair:
  assumes "sym n S D" "sym n D S" "S d = None" "D p = None"
  shows "sym n (S(d \<mapsto> p)) (D(p \<mapsto> d))" "sym n (D(p \<mapsto> d)) (S(d \<mapsto> p))"
proof -
  show "sym n (S(d \<mapsto> p)) (D(p \<mapsto> d))"
  proof (rule symI)
    fix s x assume a: "(S(d \<mapsto> p)) s = Some x" "x \<noteq> n"
    show "(D(p \<mapsto> d)) x = Some s"
    proof (cases "s = d")
      case True
      then show ?thesis using a by simp
    next
      case False
      then have Ss: "S s = Some x" using a by simp
      have Dx: "D x = Some s" using symD[OF assms(1) Ss a(2)] .
      then have "x \<noteq> p" using assms(4) by auto
      then show ?thesis using Dx by simp
    qed
  qed
  show "sym n (D(p \<mapsto> d)) (S(d \<mapsto> p))"
  proof (rule symI)
    fix x s assume a: "(D(p \<mapsto> d)) x = Some s" "s \<noteq> n"
    show "(S(d \<mapsto> p)) s = Some x"
    proof (cases "x = p")
      case True
      then show ?thesis using a by simp
    next
      case False
      then have Dx: "D x = Some s" using a by simp
      have Ss: "S s = Some x" using symD[OF assms(2) Dx a(2)] .
      then have "s \<noteq> d" using assms(3) by auto
      then show ?thesis using Ss by simp
    qed
  qed
qed

lemma keys_map_of: "k \<in> keys m \<longleftrightarrow> map_of m k \<noteq> None"
  by (simp add: keys_def map_of_eq_None_iff)

lemma count_keys: "count m k \<longleftrightarrow> k \<in> keys m"
  by (simp add: count_def keys_map_of)

lemma keys_update [simp]: "keys (AList.update k v m) = insert k (keys m)"
  by (simp add: keys_def dom_update)

lemma keys_delete [simp]: "keys (AList.delete k m) = keys m - {k}"
proof -
  have "keys (AList.delete k m) = set (map fst (AList.delete k m))" by (simp add: keys_def)
  also have "\<dots> = set (removeAll k (map fst m))" by (simp only: delete_keys)
  finally show ?thesis by (simp add: keys_def)
qed

text \<open>The tables after one disconnection, case by case.\<close>

lemma on_disconnection_driver:
  "d \<in> set (drivers st) \<Longrightarrow>
     tables (on_disconnection env st d) =
       (supply_map st, demand_map st, unmet_supply st, unmet_demand st, removeAll d (drivers st))"
  by (simp add: on_disconnection_def Let_def tables_def)


lemma take_peer_fst:
  "fst (take_peer env st d) =
     (if d \<in> keys (supply_map st) then the (map_of (supply_map st) d)
      else if d \<in> keys (demand_map st) then the (map_of (demand_map st) d)
      else NO_DESCRIPTOR env)"
  by (simp add: take_peer_def count_keys)

lemma drop_peer_tables:
  "tables (drop_peer env st p) =
     (if p = NO_DESCRIPTOR env then tables st
      else if p \<in> keys (supply_map st)
      then (AList.update p (NO_DESCRIPTOR env) (supply_map st), demand_map st, unmet_supply st, unmet_demand st, drivers st)
      else if p \<in> keys (demand_map st)
      then (supply_map st, AList.update p (NO_DESCRIPTOR env) (demand_map st), unmet_supply st, unmet_demand st, drivers st)
      else tables st)"
  by (simp add: drop_peer_def tables_def count_keys)

lemma shrinks_roles_disjoint: "shrinks st' st \<Longrightarrow> roles_disjoint st \<Longrightarrow> roles_disjoint st'"
  unfolding shrinks_def roles_disjoint_def by blast

lemma shrinks_tracked: "shrinks st' st \<Longrightarrow> tracked st' \<subseteq> tracked st"
  unfolding shrinks_def tracked_def by blast

lemma shrinks_tables:
  assumes "tables st' = (s, d, us, ud, dr)"
    and "keys s \<subseteq> keys (supply_map st)" "keys d \<subseteq> keys (demand_map st)"
    and "set us \<subseteq> set (unmet_supply st)" "set ud \<subseteq> set (unmet_demand st)"
    and "set dr \<subseteq> set (drivers st)"
  shows "shrinks st' st"
  using assms by (simp add: shrinks_def tables_def)

lemma shrinks_refl: "tables st' = tables st \<Longrightarrow> shrinks st' st"
  by (simp add: shrinks_def tables_def)

lemma shrinks_trans: "shrinks st'' st' \<Longrightarrow> shrinks st' st \<Longrightarrow> shrinks st'' st"
  unfolding shrinks_def by blast

lemma take_peer_shrinks: "shrinks (snd (take_peer env st d)) st"
  by (auto simp: shrinks_def take_peer_def)

lemma drop_peer_shrinks: "shrinks (drop_peer env st p) st"
  by (simp add: shrinks_def drop_peer_def count_keys insert_absorb)

lemma on_disconnection_shrinks: "shrinks (on_disconnection env st d) st"
proof (cases "d \<in> set (drivers st)")
  case True
  show ?thesis by (rule shrinks_tables[OF on_disconnection_driver[OF True]]) auto
next
  case False
  let ?st2 = "log (Disconnected d) st\<lparr>timestamp_map := AList.delete d (timestamp_map st)\<rparr>"
  have "tables ?st2 = tables st" by (simp add: tables_def)
  then have "shrinks ?st2 st" by (rule shrinks_refl)
  then have a: "shrinks (snd (take_peer env ?st2 d)) st"
    using take_peer_shrinks shrinks_trans by blast
  have b: "shrinks (drop_peer env (snd (take_peer env ?st2 d)) (fst (take_peer env ?st2 d))) st"
    using drop_peer_shrinks a shrinks_trans by blast
  have "on_disconnection env st d = drop_peer env (snd (take_peer env ?st2 d)) (fst (take_peer env ?st2 d))"
    using False by (simp add: on_disconnection_def Let_def split: prod.splits)
  then show ?thesis using b by simp
qed

lemma map_of_keys_the: "k \<in> keys m \<Longrightarrow> map_of m k = Some (the (map_of m k))"
  by (simp add: keys_map_of)

lemma engine_invD:
  assumes "engine_inv env st"
  shows "sym (NO_DESCRIPTOR env) (map_of (supply_map st)) (map_of (demand_map st))"
    and "sym (NO_DESCRIPTOR env) (map_of (demand_map st)) (map_of (supply_map st))"
    and "no_double_match st" and "roles_disjoint st" and "NO_DESCRIPTOR env \<notin> tracked st"
  using assms by (simp_all add: engine_inv_def peers_symmetric_sym)

lemma peers_symmetric_maps:
  assumes "supply_map st' = s" "demand_map st' = d"
    and "sym (NO_DESCRIPTOR env) (map_of s) (map_of d)" "sym (NO_DESCRIPTOR env) (map_of d) (map_of s)"
  shows "peers_symmetric env st'"
  using assms by (simp add: peers_symmetric_sym)

lemma drop_peer_maps:
  "supply_map (drop_peer env st p) =
     (if p \<noteq> NO_DESCRIPTOR env \<and> p \<in> keys (supply_map st)
      then AList.update p (NO_DESCRIPTOR env) (supply_map st) else supply_map st)"
  "demand_map (drop_peer env st p) =
     (if p \<noteq> NO_DESCRIPTOR env \<and> p \<notin> keys (supply_map st) \<and> p \<in> keys (demand_map st)
      then AList.update p (NO_DESCRIPTOR env) (demand_map st) else demand_map st)"
  by (simp_all add: drop_peer_def count_keys)

lemma on_disconnection_sym:
  assumes inv: "engine_inv env st"
  shows "peers_symmetric env (on_disconnection env st d)"
proof (cases "d \<in> set (drivers st)")
  case True
  have "tables (on_disconnection env st d) =
       (supply_map st, demand_map st, unmet_supply st, unmet_demand st, removeAll d (drivers st))"
    by (rule on_disconnection_driver[OF True])
  then have "supply_map (on_disconnection env st d) = supply_map st"
    "demand_map (on_disconnection env st d) = demand_map st"
    by (simp_all add: tables_def)
  then show ?thesis using engine_invD(1,2)[OF inv] by (simp add: peers_symmetric_sym)
next
  case False
  let ?n = "NO_DESCRIPTOR env"
  let ?S = "map_of (supply_map st)" and ?D = "map_of (demand_map st)"
  let ?st2 = "log (Disconnected d) st\<lparr>timestamp_map := AList.delete d (timestamp_map st)\<rparr>"
  let ?p = "fst (take_peer env ?st2 d)"
  let ?st3 = "snd (take_peer env ?st2 d)"
  have eq: "on_disconnection env st d = drop_peer env ?st3 ?p"
    using False by (simp add: on_disconnection_def Let_def split: prod.splits)
  have t2: "supply_map ?st2 = supply_map st" "demand_map ?st2 = demand_map st" by simp_all
  note sy = engine_invD(1,2)[OF inv]
  have nk: "?S ?n = None" "?D ?n = None"
    using engine_invD(5)[OF inv] by (simp_all add: tracked_def keys_map_of)
  have dj: "keys (supply_map st) \<inter> keys (demand_map st) = {}"
    using engine_invD(4)[OF inv] by (simp add: roles_disjoint_def)
  consider (sup) "d \<in> keys (supply_map st)"
    | (dem) "d \<notin> keys (supply_map st)" "d \<in> keys (demand_map st)"
    | (none) "d \<notin> keys (supply_map st)" "d \<notin> keys (demand_map st)" by blast
  then show ?thesis
  proof cases
    case sup
    have p: "?p = the (?S d)" using sup by (simp add: take_peer_fst)
    have Sd: "?S d = Some ?p" using map_of_keys_the[OF sup] p by simp
    have s3: "supply_map ?st3 = AList.delete d (supply_map st)" "demand_map ?st3 = demand_map st"
      using sup by (simp_all add: take_peer_def count_keys)
    show ?thesis
    proof (cases "?p = ?n")
      case True
      have "supply_map (drop_peer env ?st3 ?p) = AList.delete d (supply_map st)"
        "demand_map (drop_peer env ?st3 ?p) = demand_map st"
        using True s3 by (simp_all add: drop_peer_def)
      moreover have "sym ?n (?S(d := None)) ?D" "sym ?n ?D (?S(d := None))"
        using sym_teardown_alone[OF sy _ nk(2)] Sd True by simp_all
      ultimately show ?thesis unfolding eq
        by (simp add: peers_symmetric_sym delete_conv')
    next
      case np: False
      have Dp: "?D ?p = Some d" using symD[OF sy(1) Sd np] .
      then have pd: "?p \<in> keys (demand_map st)" by (simp add: keys_map_of)
      then have ps: "?p \<notin> keys (supply_map st)" using dj by auto
      have "supply_map (drop_peer env ?st3 ?p) = AList.delete d (supply_map st)"
        "demand_map (drop_peer env ?st3 ?p) = AList.update ?p ?n (demand_map st)"
        using np pd ps by (simp_all add: drop_peer_maps s3)
      moreover have "sym ?n (?S(d := None)) (?D(?p \<mapsto> ?n))" "sym ?n (?D(?p \<mapsto> ?n)) (?S(d := None))"
        using sym_teardown[OF sy Sd np] by simp_all
      ultimately show ?thesis unfolding eq
        by (simp add: peers_symmetric_sym delete_conv' update_conv')
    qed
  next
    case dem
    have p: "?p = the (?D d)" using dem by (simp add: take_peer_fst)
    have Dd: "?D d = Some ?p" using map_of_keys_the[OF dem(2)] p by simp
    have s3: "supply_map ?st3 = supply_map st" "demand_map ?st3 = AList.delete d (demand_map st)"
      using dem by (simp_all add: take_peer_def count_keys)
    show ?thesis
    proof (cases "?p = ?n")
      case True
      have "supply_map (drop_peer env ?st3 ?p) = supply_map st"
        "demand_map (drop_peer env ?st3 ?p) = AList.delete d (demand_map st)"
        using True s3 by (simp_all add: drop_peer_def)
      moreover have "sym ?n (?D(d := None)) ?S" "sym ?n ?S (?D(d := None))"
        using sym_teardown_alone[OF sy(2,1) _ nk(1)] Dd True by simp_all
      ultimately show ?thesis unfolding eq
        by (simp add: peers_symmetric_sym delete_conv')
    next
      case np: False
      have Sp: "?S ?p = Some d" using symD[OF sy(2) Dd np] .
      then have pk: "?p \<in> keys (supply_map st)" by (simp add: keys_map_of)
      have "supply_map (drop_peer env ?st3 ?p) = AList.update ?p ?n (supply_map st)"
        "demand_map (drop_peer env ?st3 ?p) = AList.delete d (demand_map st)"
        using np pk by (simp_all add: drop_peer_maps s3)
      moreover have "sym ?n (?D(d := None)) (?S(?p \<mapsto> ?n))" "sym ?n (?S(?p \<mapsto> ?n)) (?D(d := None))"
        using sym_teardown[OF sy(2,1) Dd np] by simp_all
      ultimately show ?thesis unfolding eq
        by (simp add: peers_symmetric_sym delete_conv' update_conv')
    qed
  next
    case none
    have p: "?p = ?n" using none by (simp add: take_peer_fst)
    have s3: "supply_map ?st3 = supply_map st" "demand_map ?st3 = demand_map st"
      using none by (simp_all add: take_peer_def count_keys)
    have "supply_map (drop_peer env ?st3 ?p) = supply_map st"
      "demand_map (drop_peer env ?st3 ?p) = demand_map st"
      using p s3 by (simp_all add: drop_peer_def)
    then show ?thesis unfolding eq using sy by (simp add: peers_symmetric_sym)
  qed
qed

lemma on_disconnection_inv:
  assumes "engine_inv env st"
  shows "engine_inv env (on_disconnection env st d)"
proof -
  have "tracked (on_disconnection env st d) \<subseteq> tracked st"
    by (rule shrinks_tracked[OF on_disconnection_shrinks])
  moreover have "roles_disjoint (on_disconnection env st d)"
    using shrinks_roles_disjoint[OF on_disconnection_shrinks] engine_invD(4)[OF assms] .
  ultimately show ?thesis
    using on_disconnection_sym[OF assms] on_disconnection_ndm[OF engine_invD(3)[OF assms]]
      engine_invD(5)[OF assms]
    unfolding engine_inv_def by blast
qed

text \<open>The tables after one new connection, case by case.\<close>

lemma on_connection_tables:
  "tables (on_connection env t st c) =
    (let d = fst c; l = snd c in
     if l = supply_descriptor env then
       (if unmet_demand st = []
        then (supply_map st, demand_map st, List.insert d (unmet_supply st), unmet_demand st, drivers st)
        else (AList.update d (hd (unmet_demand st)) (supply_map st),
              AList.update (hd (unmet_demand st)) d (demand_map st),
              unmet_supply st, removeAll (hd (unmet_demand st)) (unmet_demand st), drivers st))
     else if l = demand_descriptor env then
       (if unmet_supply st = []
        then (supply_map st, demand_map st, unmet_supply st, List.insert d (unmet_demand st), drivers st)
        else (AList.update (hd (unmet_supply st)) d (supply_map st),
              AList.update d (hd (unmet_supply st)) (demand_map st),
              removeAll (hd (unmet_supply st)) (unmet_supply st), unmet_demand st, drivers st))
     else if l = driver_descriptor env \<and> driver_descriptor env \<noteq> NO_DESCRIPTOR env then
       (supply_map st, demand_map st, unmet_supply st, unmet_demand st, List.insert d (drivers st))
     else tables st)"
  by (simp add: on_connection_def on_supply_def on_demand_def on_driver_def tables_def Let_def)

lemma engine_inv_tables: "tables st' = tables st \<Longrightarrow> engine_inv env st' = engine_inv env st"
  by (simp add: engine_inv_def peers_symmetric_def no_double_match_def roles_disjoint_def tracked_def tables_def)

lemma tracked_tables:
  "tables st = (s, d, us, ud, dr) \<Longrightarrow> tracked st = keys s \<union> keys d \<union> set us \<union> set ud \<union> set dr"
  by (auto simp: tracked_def tables_def)

lemma engine_inv_tablesI:
  assumes "tables st' = (s, d, us, ud, dr)"
    and "sym (NO_DESCRIPTOR env) (map_of s) (map_of d)" "sym (NO_DESCRIPTOR env) (map_of d) (map_of s)"
    and "us = [] \<or> ud = []"
    and "keys s \<inter> keys d = {}" "(set us \<union> set ud) \<inter> (keys s \<union> keys d) = {}"
      "set dr \<inter> (keys s \<union> keys d \<union> set us \<union> set ud) = {}"
    and "NO_DESCRIPTOR env \<notin> keys s \<union> keys d \<union> set us \<union> set ud \<union> set dr"
  shows "engine_inv env st'"
proof -
  have f: "supply_map st' = s" "demand_map st' = d" "unmet_supply st' = us" "unmet_demand st' = ud"
    "drivers st' = dr" using assms(1) by (simp_all add: tables_def)
  show ?thesis
    unfolding engine_inv_def peers_symmetric_sym no_double_match_def roles_disjoint_def tracked_def f
    using assms(2-) by blast
qed

lemma engine_inv_facts:
  assumes "engine_inv env st"
  shows "keys (supply_map st) \<inter> keys (demand_map st) = {}"
    and "(set (unmet_supply st) \<union> set (unmet_demand st)) \<inter> (keys (supply_map st) \<union> keys (demand_map st)) = {}"
    and "set (drivers st) \<inter>
       (keys (supply_map st) \<union> keys (demand_map st) \<union> set (unmet_supply st) \<union> set (unmet_demand st)) = {}"
    and "NO_DESCRIPTOR env \<notin> keys (supply_map st) \<union> keys (demand_map st) \<union> set (unmet_supply st)
          \<union> set (unmet_demand st) \<union> set (drivers st)"
    and "unmet_supply st = [] \<or> unmet_demand st = []"
  using assms by (simp_all add: engine_inv_def roles_disjoint_def tracked_def no_double_match_def)

lemma on_connection_inv:
  assumes inv: "engine_inv env st" and fresh: "fst c \<notin> tracked st" and nn: "fst c \<noteq> NO_DESCRIPTOR env"
  shows "engine_inv env (on_connection env t st c)"
proof -
  let ?n = "NO_DESCRIPTOR env" and ?d = "fst c" and ?l = "snd c"
  let ?S = "supply_map st" and ?D = "demand_map st"
  note sy = engine_invD(1,2)[OF inv]
  note fa = engine_inv_facts[OF inv]
  have fr: "?d \<notin> keys ?S" "?d \<notin> keys ?D" "?d \<notin> set (unmet_supply st)" "?d \<notin> set (unmet_demand st)"
    "?d \<notin> set (drivers st)" using fresh by (simp_all add: tracked_def)
  have same: "engine_inv env st'" if "tables st' = tables st" for st'
    using that inv engine_inv_tables by blast
  consider (sq) "?l = supply_descriptor env" "unmet_demand st = []"
    | (sp) "?l = supply_descriptor env" "unmet_demand st \<noteq> []"
    | (dq) "?l \<noteq> supply_descriptor env" "?l = demand_descriptor env" "unmet_supply st = []"
    | (dp) "?l \<noteq> supply_descriptor env" "?l = demand_descriptor env" "unmet_supply st \<noteq> []"
    | (dr) "?l \<noteq> supply_descriptor env" "?l \<noteq> demand_descriptor env"
         "?l = driver_descriptor env \<and> driver_descriptor env \<noteq> ?n"
    | (no) "?l \<noteq> supply_descriptor env" "?l \<noteq> demand_descriptor env"
         "\<not> (?l = driver_descriptor env \<and> driver_descriptor env \<noteq> ?n)"
    by blast
  then show ?thesis
  proof cases
    case sq
    have t: "tables (on_connection env t st c) =
        (?S, ?D, List.insert ?d (unmet_supply st), unmet_demand st, drivers st)"
      using sq by (simp add: on_connection_tables Let_def)
    show ?thesis
      by (rule engine_inv_tablesI[OF t sy]) (use fa fr nn sq in auto)
  next
    case sp
    let ?p = "hd (unmet_demand st)"
    have pin: "?p \<in> set (unmet_demand st)" using sp by simp
    have us: "unmet_supply st = []" using fa(5) sp by simp
    have pf: "?p \<notin> keys ?S" "?p \<notin> keys ?D" "?p \<notin> set (drivers st)" "?p \<noteq> ?n" "?p \<noteq> ?d"
      using pin fa fr by auto
    have t: "tables (on_connection env t st c) =
        (AList.update ?d ?p ?S, AList.update ?p ?d ?D, unmet_supply st,
         removeAll ?p (unmet_demand st), drivers st)"
      using sp by (simp add: on_connection_tables Let_def)
    have s1: "sym ?n (map_of (AList.update ?d ?p ?S)) (map_of (AList.update ?p ?d ?D))"
      and s2: "sym ?n (map_of (AList.update ?p ?d ?D)) (map_of (AList.update ?d ?p ?S))"
      using sym_pair[OF sy, of ?d ?p] fr(1) pf(2) by (simp_all add: update_conv' keys_map_of)
    show ?thesis
      by (rule engine_inv_tablesI[OF t s1 s2]) (use fa fr nn us pf in auto)
  next
    case dq
    have t: "tables (on_connection env t st c) =
        (?S, ?D, unmet_supply st, List.insert ?d (unmet_demand st), drivers st)"
      using dq by (simp add: on_connection_tables Let_def)
    show ?thesis
      by (rule engine_inv_tablesI[OF t sy]) (use fa fr nn dq in auto)
  next
    case dp
    let ?p = "hd (unmet_supply st)"
    have pin: "?p \<in> set (unmet_supply st)" using dp by simp
    have ud: "unmet_demand st = []" using fa(5) dp by simp
    have pf: "?p \<notin> keys ?S" "?p \<notin> keys ?D" "?p \<notin> set (drivers st)" "?p \<noteq> ?n" "?p \<noteq> ?d"
      using pin fa fr by auto
    have t: "tables (on_connection env t st c) =
        (AList.update ?p ?d ?S, AList.update ?d ?p ?D, removeAll ?p (unmet_supply st),
         unmet_demand st, drivers st)"
      using dp by (simp add: on_connection_tables Let_def)
    have s2: "sym ?n (map_of (AList.update ?d ?p ?D)) (map_of (AList.update ?p ?d ?S))"
      and s1: "sym ?n (map_of (AList.update ?p ?d ?S)) (map_of (AList.update ?d ?p ?D))"
      using sym_pair[OF sy(2,1), of ?d ?p] fr(2) pf(1) by (simp_all add: update_conv' keys_map_of)
    show ?thesis
      by (rule engine_inv_tablesI[OF t s1 s2]) (use fa fr nn ud pf in auto)
  next
    case dr
    have t: "tables (on_connection env t st c) =
        (?S, ?D, unmet_supply st, unmet_demand st, List.insert ?d (drivers st))"
      using dr by (simp add: on_connection_tables Let_def)
    show ?thesis
      by (rule engine_inv_tablesI[OF t sy]) (use fa fr nn in auto)
  next
    case no
    have "tables (on_connection env t st c) = tables st"
      using no by (auto simp add: on_connection_tables Let_def)
    then show ?thesis by (rule same)
  qed
qed

lemma on_connection_tracked: "tracked (on_connection env t st c) \<subseteq> insert (fst c) (tracked st)"
proof -
  have h: "xs \<noteq> [] \<Longrightarrow> hd xs \<in> set xs" for xs :: "descriptor list" by simp
  obtain s d us ud dr where t: "tables (on_connection env t st c) = (s, d, us, ud, dr)"
    using prod_cases5 by blast
  have "keys s \<union> keys d \<union> set us \<union> set ud \<union> set dr \<subseteq> insert (fst c) (tracked st)"
    using t h[of "unmet_supply st"] h[of "unmet_demand st"]
    unfolding on_connection_tables Let_def tracked_def
    by (auto simp: tables_def split: if_splits)
  then show ?thesis using tracked_tables[OF t] by simp
qed

subsection \<open>The invariant along the loop\<close>

lemma engine_inv_call [simp]: "engine_inv env (call c st) = engine_inv env st"
  by (rule engine_inv_tables) simp

lemma tracked_call [simp]: "tracked (call c st) = tracked st"
  by (simp add: tracked_def)

lemma drain_disconnections_inv:
  "engine_inv env st \<Longrightarrow> engine_inv env (drain_disconnections env st ds)"
proof (induction ds arbitrary: st)
  case Nil
  then show ?case by simp
next
  case (Cons d ds)
  then show ?case using on_disconnection_inv by simp
qed

lemma drain_connections_inv:
  assumes "engine_inv env st" "distinct (map fst cs)" "\<forall>c \<in> set cs. fst c \<notin> tracked st"
  shows "engine_inv env (drain_connections env t st cs)"
  using assms
proof (induction cs arbitrary: st)
  case Nil
  then show ?case by simp
next
  case (Cons c cs)
  show ?case
  proof (cases "fst c = NO_DESCRIPTOR env")
    case True
    then show ?thesis using Cons.prems(1) by simp
  next
    case False
    let ?st' = "on_connection env t (call (Next_connection (fst c)) st) c"
    have fr: "fst c \<notin> tracked (call (Next_connection (fst c)) st)" using Cons.prems(3) by simp
    have i: "engine_inv env ?st'"
      by (rule on_connection_inv[OF _ fr False]) (use Cons.prems(1) in simp)
    have "tracked ?st' \<subseteq> insert (fst c) (tracked st)"
      using on_connection_tracked[of env t "call (Next_connection (fst c)) st" c] by simp
    moreover have "fst c \<notin> fst ` set cs" using Cons.prems(2) by simp
    then have "\<forall>c' \<in> set cs. fst c' \<noteq> fst c" by (metis imageI)
    moreover have "\<forall>c' \<in> set cs. fst c' \<notin> tracked st" using Cons.prems(3) by simp
    ultimately have r: "\<forall>c' \<in> set cs. fst c' \<notin> tracked ?st'"
      by blast
    have "engine_inv env (drain_connections env t ?st' cs)"
      by (rule Cons.IH[OF i _ r]) (use Cons.prems(2) in simp)
    then show ?thesis using False by simp
  qed
qed

lemma iteration_before_connections:
  "\<not> terminated (foldl on_signal (st\<lparr>alarmed := False\<rparr>) (signals ev)) \<Longrightarrow>
   iteration env st ev =
     idle_reap env (now ev)
       (drain_incoming env (now ev)
         (publish env (now ev)
           (drain_connections env (now ev) (before_connections env st ev) (connections ev)))
         (incoming ev))"
  by (simp add: iteration_def before_connections_def Let_def)

lemma before_connections_inv:
  assumes "engine_inv env st"
  shows "engine_inv env (before_connections env st ev)"
proof -
  let ?st2 = "poll (serve_result ev) (foldl on_signal (st\<lparr>alarmed := False\<rparr>) (signals ev))"
  have "tables ?st2 = tables st" by (simp add: tables_def[of "st\<lparr>alarmed := False\<rparr>"] tables_def[of st])
  then have "engine_inv env ?st2" using assms engine_inv_tables by blast
  then have "engine_inv env (drain_disconnections env ?st2 (disconnections ev))"
    by (rule drain_disconnections_inv)
  moreover have "tables (st'\<lparr>new_demand := 0\<rparr>) = tables st'" for st' by (simp add: tables_def)
  ultimately show ?thesis unfolding before_connections_def using engine_inv_tables by blast
qed

lemma iteration_inv:
  assumes "engine_inv env st" "fresh_connections env st ev"
  shows "engine_inv env (iteration env st ev)"
proof (cases "terminated (foldl on_signal (st\<lparr>alarmed := False\<rparr>) (signals ev))")
  case True
  then have "tables (iteration env st ev) = tables st" by (simp add: tables_iteration)
  then show ?thesis using assms(1) engine_inv_tables by blast
next
  case False
  let ?st5 = "drain_connections env (now ev) (before_connections env st ev) (connections ev)"
  have "engine_inv env ?st5"
    using drain_connections_inv[OF before_connections_inv[OF assms(1)]] assms(2)
    by (simp add: fresh_connections_def)
  moreover have "tables (iteration env st ev) = tables ?st5"
    unfolding iteration_before_connections[OF False] by simp
  ultimately show ?thesis using engine_inv_tables by blast
qed

lemma loop_inv:
  "engine_inv env st \<Longrightarrow> fresh_run env st evs \<Longrightarrow> \<forall>s \<in> set (loop_states env st evs). engine_inv env s"
proof (induction evs arbitrary: st)
  case Nil
  then show ?case by simp
next
  case (Cons ev evs)
  have i: "engine_inv env (iteration env st ev)"
    using iteration_inv Cons.prems by simp
  show ?case
  proof (cases "terminated (iteration env st ev)")
    case True
    then show ?thesis using i by (simp add: Let_def)
  next
    case False
    then have "fresh_run env (iteration env st ev) evs" using Cons.prems(2) by (simp add: Let_def)
    then show ?thesis using Cons.IH[OF i] i False by (simp add: Let_def)
  qed
qed

lemma inv0: "engine_inv env (start env)"
  by (simp add: engine_inv_def peers_symmetric_def no_double_match_def roles_disjoint_def tracked_def
      start_def keys_def Let_def)

subsection \<open>The frozen set\<close>

lemma extends_refl: "calls st' = calls st \<Longrightarrow> extends P st st'"
  by (simp add: extends_def)

lemma extends_trans: "extends P st st' \<Longrightarrow> extends P st' st'' \<Longrightarrow> extends P st st''"
  unfolding extends_def by (metis append.assoc list_all_append)

lemma extends_call: "P c \<Longrightarrow> extends P st (call c st)"
  by (simp add: extends_def)

lemma extends_log: "P (Log l) \<Longrightarrow> extends P st (log l st)"
  by (simp add: extends_def)

lemma extends_foldl:
  assumes "\<And>s x. extends P s (f s x)"
  shows "extends P st (foldl f st xs)"
proof (induction xs arbitrary: st)
  case Nil
  then show ?case by (simp add: extends_refl)
next
  case (Cons x xs)
  show ?case using extends_trans[OF assms[of st x] Cons[of "f st x"]] by simp
qed

lemma frozen_call [simp]: "frozen (call c st) = frozen_step (frozen st) c"
  by (simp add: frozen_def)

lemma frozen_log [simp]: "frozen (log l st) = frozen st"
  by (simp add: log_def)

lemma frozen_neutral: "list_all mux_neutral cs \<Longrightarrow> foldl frozen_step F cs = F"
proof (induction cs arbitrary: F)
  case Nil
  then show ?case by simp
next
  case (Cons c cs)
  then show ?case by (cases c) simp_all
qed

lemma frozen_extends: "extends mux_neutral st st' \<Longrightarrow> frozen st' = frozen st"
  by (auto simp: extends_def frozen_def frozen_neutral)

lemma frozen_calls: "calls st' = calls st \<Longrightarrow> frozen st' = frozen st"
  by (simp add: frozen_def)

lemma unmet_tables: "tables st' = tables st \<Longrightarrow> unmet st' = unmet st"
  by (simp add: unmet_def tables_def)

text \<open>Steps that neither freeze, unfreeze nor take a disconnection.\<close>

lemma extends_on_signal: "P = mux_neutral \<Longrightarrow> extends P st (on_signal st s)"
  by (cases s) (simp_all add: extends_def log_def call_def)

lemma extends_poll: "extends mux_neutral st (poll ok st)"
  by (simp add: poll_def extends_def Let_def)

lemma extends_shut_listeners: "extends mux_neutral st (shut_listeners env st)"
  by (simp add: shut_listeners_def extends_def)

lemma extends_publish_one: "extends mux_neutral st (publish_one env t st d)"
  by (simp add: publish_one_def extends_def Let_def split: prod.splits)

lemma extends_publish: "extends mux_neutral st (publish env t st)"
  by (simp add: publish_def extends_foldl[OF extends_publish_one] extends_refl)

lemma extends_forward: "extends mux_neutral st (forward env t st d b)"
  by (simp add: forward_def extends_def Let_def)

lemma extends_on_incoming: "extends mux_neutral st (on_incoming env t st i)"
proof -
  have "extends mux_neutral st (call (Swap_incoming (fst i)) st)" by (simp add: extends_call)
  moreover have "extends mux_neutral (call (Swap_incoming (fst i)) st)
     (if fst i \<notin> set (drivers (call (Swap_incoming (fst i)) st))
      then forward env t (call (Swap_incoming (fst i)) st) (fst i) (snd i)
      else call (Swap_incoming (fst i)) st)"
    by (simp add: extends_forward extends_refl)
  ultimately have "extends mux_neutral st
     (if fst i \<notin> set (drivers (call (Swap_incoming (fst i)) st))
      then forward env t (call (Swap_incoming (fst i)) st) (fst i) (snd i)
      else call (Swap_incoming (fst i)) st)" by (rule extends_trans)
  then show ?thesis by (simp add: on_incoming_def Let_def extends_def)
qed

lemma extends_drain_incoming: "extends mux_neutral st (drain_incoming env t st is)"
proof (induction "is" arbitrary: st)
  case Nil
  then show ?case by (simp add: extends_call)
next
  case (Cons i "is")
  have a: "extends mux_neutral st (call (Next_incoming (fst i)) st)" by (simp add: extends_call)
  show ?case
    using extends_trans[OF extends_trans[OF a extends_on_incoming] Cons]
    by (simp add: extends_call)
qed

lemma extends_reap_one: "extends mux_neutral st (reap_one env t st p)"
  by (simp add: reap_one_def extends_def)

lemma extends_idle_reap: "extends mux_neutral st (idle_reap env t st)"
  by (simp add: idle_reap_def extends_foldl[OF extends_reap_one] extends_refl)

text \<open>Disconnections and connections.\<close>

lemma unmet_call [simp]: "unmet (call c st) = unmet st"
  by (simp add: unmet_def)

lemma on_disconnection_frozen:
  "frozen (on_disconnection env st d) = frozen st"
proof -
  have "extends mux_neutral st (on_disconnection env st d)"
    by (simp add: on_disconnection_def take_peer_def drop_peer_def extends_def Let_def split: prod.splits)
  then show ?thesis by (rule frozen_extends)
qed

lemma on_disconnection_unmet_eq:
  assumes "roles_disjoint st"
  shows "unmet (on_disconnection env st d) = unmet st - {d}"
proof (cases "d \<in> set (drivers st)")
  case True
  then have "d \<notin> unmet st" using assms by (auto simp: roles_disjoint_def unmet_def)
  moreover have "unmet (on_disconnection env st d) = unmet st"
    using on_disconnection_driver[OF True, of env] by (simp add: unmet_def tables_def)
  ultimately show ?thesis by simp
next
  case False
  let ?st2 = "log (Disconnected d) st\<lparr>timestamp_map := AList.delete d (timestamp_map st)\<rparr>"
  have eq: "on_disconnection env st d = drop_peer env (snd (take_peer env ?st2 d)) (fst (take_peer env ?st2 d))"
    using False by (simp add: on_disconnection_def Let_def split: prod.splits)
  have u: "unmet (drop_peer env s p) = unmet s" for s p
    by (simp add: unmet_def drop_peer_def)
  show ?thesis
  proof (cases "d \<in> keys (supply_map st) \<union> keys (demand_map st)")
    case True
    then have "d \<notin> unmet st" using assms by (auto simp: roles_disjoint_def unmet_def)
    moreover have "unmet (snd (take_peer env ?st2 d)) = unmet st"
      using True by (auto simp: take_peer_def count_keys unmet_def)
    ultimately show ?thesis unfolding eq u by simp
  next
    case False
    then have "unmet (snd (take_peer env ?st2 d)) = unmet st - {d}"
      by (auto simp: take_peer_def count_keys unmet_def)
    then show ?thesis unfolding eq u by simp
  qed
qed

lemma drain_disconnections_frozen:
  assumes "engine_inv env st" "frozen st = unmet st"
  shows "frozen (drain_disconnections env st ds) = unmet (drain_disconnections env st ds)"
  using assms
proof (induction ds arbitrary: st)
  case Nil
  have "NO_DESCRIPTOR env \<notin> unmet st" using Nil(1) by (simp add: engine_inv_def tracked_def unmet_def)
  then show ?case using Nil(2) by simp
next
  case (Cons d ds)
  show ?case
  proof (cases "d = NO_DESCRIPTOR env")
    case True
    have "NO_DESCRIPTOR env \<notin> unmet st" using Cons.prems(1) by (simp add: engine_inv_def tracked_def unmet_def)
    then show ?thesis using True Cons.prems(2) by simp
  next
    case False
    let ?st1 = "call (Next_disconnection d) st"
    have i: "engine_inv env (on_disconnection env ?st1 d)"
      using on_disconnection_inv Cons.prems(1) by simp
    have "roles_disjoint ?st1" using Cons.prems(1) by (simp add: engine_inv_def roles_disjoint_def)
    then have "unmet (on_disconnection env ?st1 d) = unmet st - {d}"
      using on_disconnection_unmet_eq[of ?st1 env d] by simp
    moreover have "frozen (on_disconnection env ?st1 d) = frozen st - {d}"
      by (simp add: on_disconnection_frozen)
    ultimately have "frozen (on_disconnection env ?st1 d) = unmet (on_disconnection env ?st1 d)"
      using Cons.prems(2) by simp
    then show ?thesis using Cons.IH[OF i] False by simp
  qed
qed

lemma on_connection_frozen:
  assumes "no_double_match st" "frozen st = unmet st"
  shows "frozen (on_connection env t st c) = unmet (on_connection env t st c)"
proof -
  have h: "xs \<noteq> [] \<Longrightarrow> hd xs \<in> set xs" for xs :: "descriptor list" by simp
  show ?thesis
    using assms h[of "unmet_supply st"] h[of "unmet_demand st"]
    unfolding no_double_match_def
    by (auto simp: on_connection_def on_supply_def on_demand_def on_driver_def Let_def unmet_def frozen_def)
qed

lemma drain_connections_frozen:
  assumes "no_double_match st" "frozen st = unmet st"
  shows "frozen (drain_connections env t st cs) = unmet (drain_connections env t st cs)"
  using assms
proof (induction cs arbitrary: st)
  case Nil
  then show ?case by simp
next
  case (Cons c cs)
  show ?case
  proof (cases "fst c = NO_DESCRIPTOR env")
    case True
    then show ?thesis using Cons.prems by simp
  next
    case False
    let ?st1 = "call (Next_connection (fst c)) st"
    have a: "no_double_match ?st1" "frozen ?st1 = unmet ?st1" using Cons.prems by simp_all
    have "frozen (on_connection env t ?st1 c) = unmet (on_connection env t ?st1 c)"
      by (rule on_connection_frozen[OF a])
    moreover have "no_double_match (on_connection env t ?st1 c)"
      by (rule on_connection_ndm[OF a(1)])
    ultimately show ?thesis using Cons.IH False by simp
  qed
qed

lemma frozen_fields [simp]:
  "frozen (st\<lparr>alarmed := a\<rparr>) = frozen st"
  "frozen (st\<lparr>new_demand := n\<rparr>) = frozen st"
  by (simp_all add: frozen_def)

lemma unmet_fields [simp]:
  "unmet (st\<lparr>alarmed := a\<rparr>) = unmet st"
  "unmet (st\<lparr>new_demand := n\<rparr>) = unmet st"
  by (simp_all add: unmet_def)

lemma before_connections_frozen:
  assumes "engine_inv env st" "frozen st = unmet st"
  shows "frozen (before_connections env st ev) = unmet (before_connections env st ev)"
proof -
  let ?st0 = "st\<lparr>alarmed := False\<rparr>"
  let ?st1 = "foldl on_signal ?st0 (signals ev)"
  let ?st2 = "poll (serve_result ev) ?st1"
  let ?st3 = "drain_disconnections env ?st2 (disconnections ev)"
  have t: "tables ?st2 = tables st" by (simp add: tables_def[of ?st0] tables_def[of st])
  have "extends mux_neutral ?st0 ?st1" by (rule extends_foldl) (simp add: extends_on_signal)
  then have "extends mux_neutral ?st0 ?st2" using extends_poll extends_trans by blast
  then have "frozen ?st2 = frozen ?st0" by (rule frozen_extends)
  also have "\<dots> = frozen st" by simp
  also have "\<dots> = unmet st" by (rule assms(2))
  also have "\<dots> = unmet ?st2" by (rule unmet_tables[OF t, symmetric])
  finally have f: "frozen ?st2 = unmet ?st2" .
  have i: "engine_inv env ?st2" using assms(1) engine_inv_tables[OF t] by simp
  have "frozen ?st3 = unmet ?st3" by (rule drain_disconnections_frozen[OF i f])
  then show ?thesis unfolding before_connections_def by simp
qed

lemma iteration_frozen:
  assumes "engine_inv env st" "frozen st = unmet st"
  shows "frozen (iteration env st ev) = unmet (iteration env st ev)"
proof (cases "terminated (foldl on_signal (st\<lparr>alarmed := False\<rparr>) (signals ev))")
  case True
  let ?st0 = "st\<lparr>alarmed := False\<rparr>"
  let ?st1 = "foldl on_signal ?st0 (signals ev)"
  have "extends mux_neutral ?st0 ?st1" by (rule extends_foldl) (simp add: extends_on_signal)
  then have "extends mux_neutral ?st0 (shut_listeners env ?st1)"
    using extends_shut_listeners extends_trans by blast
  then have "frozen (shut_listeners env ?st1) = frozen ?st0" by (rule frozen_extends)
  moreover have "iteration env st ev = shut_listeners env ?st1"
    using True by (simp add: iteration_def Let_def)
  ultimately have "frozen (iteration env st ev) = frozen st" by simp
  moreover have "tables (iteration env st ev) = tables st" using True by (simp add: tables_iteration)
  then have "unmet (iteration env st ev) = unmet st" by (rule unmet_tables)
  ultimately show ?thesis using assms(2) by simp
next
  case False
  let ?st4 = "before_connections env st ev"
  let ?st5 = "drain_connections env (now ev) ?st4 (connections ev)"
  have n: "no_double_match ?st4"
    using before_connections_inv[OF assms(1)] by (simp add: engine_inv_def)
  have f5: "frozen ?st5 = unmet ?st5"
    by (rule drain_connections_frozen[OF n before_connections_frozen[OF assms]])
  have "extends mux_neutral ?st5 (iteration env st ev)"
    unfolding iteration_before_connections[OF False]
    by (rule extends_trans[OF extends_trans[OF extends_publish extends_drain_incoming] extends_idle_reap])
  then have "frozen (iteration env st ev) = frozen ?st5" by (rule frozen_extends)
  moreover have "tables (iteration env st ev) = tables ?st5"
    unfolding iteration_before_connections[OF False] by simp
  then have "unmet (iteration env st ev) = unmet ?st5" by (rule unmet_tables)
  ultimately show ?thesis using f5 by simp
qed

lemma loop_frozen:
  "engine_inv env st \<Longrightarrow> frozen st = unmet st \<Longrightarrow> fresh_run env st evs \<Longrightarrow>
     \<forall>s \<in> set (loop_states env st evs). frozen s = unmet s"
proof (induction evs arbitrary: st)
  case Nil
  then show ?case by simp
next
  case (Cons ev evs)
  have i: "engine_inv env (iteration env st ev)"
    using iteration_inv Cons.prems by simp
  have f: "frozen (iteration env st ev) = unmet (iteration env st ev)"
    using iteration_frozen Cons.prems by simp
  show ?case
  proof (cases "terminated (iteration env st ev)")
    case True
    then show ?thesis using f by (simp add: Let_def)
  next
    case False
    then have "fresh_run env (iteration env st ev) evs" using Cons.prems(3) by (simp add: Let_def)
    then show ?thesis using Cons.IH[OF i f] f False by (simp add: Let_def)
  qed
qed

subsection \<open>Signals, flags and leaving the loop\<close>

lemma signals_terminated:
  "terminated (foldl on_signal st ss) = (terminated st \<or> list_ex deadly ss)"
proof (induction ss arbitrary: st)
  case Nil
  then show ?case by simp
next
  case (Cons s ss)
  then show ?case by (cases s) (auto simp: deadly_def)
qed

lemma signals_alarmed:
  "alarmed (foldl on_signal st ss) = (alarmed st \<or> SIGALRM \<in> set ss)"
proof (induction ss arbitrary: st)
  case Nil
  then show ?case by simp
next
  case (Cons s ss)
  then show ?case by (cases s) auto
qed

lemma signals_timestamp_map [simp]:
  "timestamp_map (foldl on_signal st ss) = timestamp_map st"
proof (induction ss arbitrary: st)
  case Nil
  then show ?case by simp
next
  case (Cons s ss)
  then show ?case by (cases s) auto
qed

lemma signals_calls:
  "calls (foldl on_signal st ss) = calls st @ map (\<lambda>s. Log (Caught_signal s)) (filter (\<lambda>s. s \<noteq> SIGALRM) ss)"
proof (induction ss arbitrary: st)
  case Nil
  then show ?case by simp
next
  case (Cons s ss)
  then show ?case by (cases s) auto
qed

lemma intake_terminated: "terminated (intake st ev) = (terminated st \<or> list_ex deadly (signals ev))"
  by (simp add: intake_def signals_terminated)

lemma intake_alarmed: "alarmed (intake st ev) = (SIGALRM \<in> set (signals ev))"
  by (simp add: intake_def signals_alarmed)

lemma iteration_intake:
  "iteration env st ev =
    (if terminated (intake st ev) then shut_listeners env (intake st ev)
     else rest_of_body env ev (poll (serve_result ev) (intake st ev)))"
  by (simp add: iteration_def intake_def rest_of_body_def Let_def)

lemma flags_call [simp]: "flags (call c st) = flags st"
  by (simp add: flags_def)

lemma flags_log [simp]: "flags (log l st) = flags st"
  by (simp add: flags_def)

lemma flags_on_disconnection [simp]: "flags (on_disconnection env st d) = flags st"
  by (simp add: on_disconnection_def take_peer_def drop_peer_def flags_def Let_def split: prod.splits)

lemma flags_drain_disconnections [simp]: "flags (drain_disconnections env st ds) = flags st"
  by (induction ds arbitrary: st) simp_all

lemma flags_on_connection [simp]: "flags (on_connection env t st c) = flags st"
  by (simp add: on_connection_def on_supply_def on_demand_def on_driver_def flags_def Let_def)

lemma flags_drain_connections [simp]: "flags (drain_connections env t st cs) = flags st"
  by (induction cs arbitrary: st) simp_all

lemma flags_publish_one [simp]: "flags (publish_one env t st d) = flags st"
  by (simp add: publish_one_def flags_def Let_def split: prod.splits)

lemma flags_publish [simp]: "flags (publish env t st) = flags st"
proof -
  have "flags (foldl (publish_one env t) s ds) = flags s" for s ds
    by (induction ds arbitrary: s) simp_all
  then show ?thesis by (simp add: publish_def)
qed

lemma flags_on_incoming [simp]: "flags (on_incoming env t st i) = flags st"
  by (simp add: on_incoming_def forward_def flags_def Let_def)

lemma flags_drain_incoming [simp]: "flags (drain_incoming env t st is) = flags st"
  by (induction "is" arbitrary: st) simp_all

lemma flags_idle_reap [simp]: "flags (idle_reap env t st) = flags st"
proof -
  have "flags (foldl (reap_one env t) s ps) = flags s" for s ps
    by (induction ps arbitrary: s) (simp_all add: reap_one_def)
  then show ?thesis by (simp add: idle_reap_def)
qed

lemma flags_rest_of_body [simp]: "flags (rest_of_body env ev st) = flags st"
proof -
  have "flags (s\<lparr>new_demand := 0\<rparr>) = flags s" for s by (simp add: flags_def)
  then show ?thesis by (simp add: rest_of_body_def)
qed

lemma run_loop_terminated: "run_loop env st evs = Some (s, rest) \<Longrightarrow> terminated s"
proof (induction evs arbitrary: st)
  case Nil
  then show ?case by simp
next
  case (Cons ev evs)
  then show ?case by (auto simp: Let_def split: if_splits)
qed

subsection \<open>What is written to a driver\<close>

lemma written_append [simp]: "written d (xs @ ys) = written d xs @ written d ys"
  by (induction xs rule: written.induct) simp_all

lemma written_map_Writef [simp]:
  "written d (map (Writef d) xs) = xs"
  "d' \<noteq> d \<Longrightarrow> written d (map (Writef d') xs) = []"
  by (induction xs) simp_all

lemma subscript_fst: "fst (subscript m k) = (case map_of m k of Some v \<Rightarrow> v | None \<Rightarrow> 0)"
  by (simp add: subscript_def split: option.splits)

lemma subscript_snd:
  "map_of (snd (subscript m k)) x = (if x = k then Some (fst (subscript m k)) else map_of m x)"
  by (auto simp: subscript_def map_add_def split: option.splits)

lemma publish_one_calls:
  "calls (publish_one env t st d) = calls st @ map (Writef d) (published env t st d)"
  by (simp add: publish_one_def published_def last_activity_def subscript_def Let_def split: option.splits)

lemma publish_one_new_demand [simp]: "new_demand (publish_one env t st d) = new_demand st"
  by (simp add: publish_one_def Let_def split: prod.splits)

lemma publish_one_unmet_demand [simp]: "unmet_demand (publish_one env t st d) = unmet_demand st"
  using tables_eqD(4)[OF tables_publish_one] .

lemma publish_one_drivers [simp]: "drivers (publish_one env t st d) = drivers st"
  using tables_eqD(5)[OF tables_publish_one] .

lemma publish_one_timestamp_other:
  "x \<noteq> d \<Longrightarrow> map_of (timestamp_map (publish_one env t st d)) x = map_of (timestamp_map st) x"
  by (cases "subscript (timestamp_map st) d")
     (use subscript_snd[of "timestamp_map st" d x] in
        \<open>simp add: publish_one_def Let_def update_conv'\<close>)

lemma publish_one_timestamp_self:
  "map_of (timestamp_map (publish_one env t st d)) d =
     Some (if last_activity st d > t \<or> published env t st d \<noteq> [] then t else last_activity st d)"
  by (cases "subscript (timestamp_map st) d")
     (use subscript_snd[of "timestamp_map st" d d] subscript_fst[of "timestamp_map st" d] in
        \<open>simp add: publish_one_def published_def last_activity_def Let_def update_conv'\<close>)

lemma last_activity_other:
  "x \<noteq> d \<Longrightarrow> last_activity (publish_one env t st d) x = last_activity st x"
  by (simp add: last_activity_def publish_one_timestamp_other)

lemma published_other:
  "x \<noteq> d \<Longrightarrow> published env t (publish_one env t st d) x = published env t st x"
  by (simp add: published_def last_activity_other)

lemma publish_fold_written:
  "distinct ds \<Longrightarrow>
   written d (calls (foldl (publish_one env t) st ds)) =
     written d (calls st) @ (if d \<in> set ds then published env t st d else [])"
proof (induction ds arbitrary: st)
  case Nil
  then show ?case by simp
next
  case (Cons x xs)
  show ?case
  proof (cases "x = d")
    case True
    then have "d \<notin> set xs" using Cons.prems by simp
    then show ?thesis using Cons.IH[of "publish_one env t st x"] Cons.prems True
      by (simp add: publish_one_calls)
  next
    case False
    then show ?thesis using Cons.IH[of "publish_one env t st x"] Cons.prems
      by (simp add: publish_one_calls published_other)
  qed
qed

lemma publish_fold_timestamp:
  "distinct ds \<Longrightarrow>
   map_of (timestamp_map (foldl (publish_one env t) st ds)) d =
     (if d \<in> set ds then map_of (timestamp_map (publish_one env t st d)) d
      else map_of (timestamp_map st) d)"
proof (induction ds arbitrary: st)
  case Nil
  then show ?case by simp
next
  case (Cons x xs)
  show ?case
  proof (cases "x = d")
    case True
    then have "d \<notin> set xs" using Cons.prems by simp
    then show ?thesis using Cons.IH[of "publish_one env t st x"] Cons.prems True by simp
  next
    case False
    have "map_of (timestamp_map (publish_one env t (publish_one env t st x) d)) d =
          map_of (timestamp_map (publish_one env t st d)) d"
      using False by (simp add: publish_one_timestamp_self last_activity_other published_other)
    then show ?thesis using Cons.IH[of "publish_one env t st x"] Cons.prems False
      by (simp add: publish_one_timestamp_other)
  qed
qed

text \<open>Which calls each step can add.\<close>

lemma extends_mono: "extends P st st' \<Longrightarrow> (\<And>c. P c \<Longrightarrow> Q c) \<Longrightarrow> extends Q st st'"
  unfolding extends_def list_all_iff by blast

lemma ext_signals:
  assumes "\<And>l. P (Log l)"
  shows "extends P st (foldl on_signal st ss)"
proof (rule extends_foldl)
  fix s x show "extends P s (on_signal s x)"
    by (cases x) (simp_all add: extends_def assms log_def call_def)
qed

lemma ext_intake:
  assumes "\<And>l. P (Log l)"
  shows "extends P st (intake st ev)"
proof -
  have "extends P (st\<lparr>alarmed := False\<rparr>) (intake st ev)"
    unfolding intake_def by (rule ext_signals) (rule assms)
  then show ?thesis by (simp add: extends_def)
qed

lemma ext_poll:
  assumes "\<And>l. P (Log l)" "\<And>b. P (Serve b)"
  shows "extends P st (poll ok st)"
  by (simp add: poll_def extends_def Let_def assms)

lemma ext_on_disconnection:
  assumes "\<And>l. P (Log l)" "\<And>x. P (Disconnect x)"
  shows "extends P st (on_disconnection env st d)"
  by (simp add: on_disconnection_def take_peer_def drop_peer_def extends_def Let_def assms split: prod.splits)

lemma ext_drain_disconnections:
  assumes "\<And>l. P (Log l)" "\<And>x. P (Disconnect x)" "\<And>x. P (Next_disconnection x)"
  shows "extends P st (drain_disconnections env st ds)"
proof (induction ds arbitrary: st)
  case Nil
  then show ?case by (simp add: extends_call assms)
next
  case (Cons d ds)
  have a: "extends P st (call (Next_disconnection d) st)" by (simp add: extends_call assms)
  have b: "extends P s (on_disconnection env s d)" for s
    by (rule ext_on_disconnection; rule assms)
  show ?case
    using extends_trans[OF extends_trans[OF a b] Cons]
    by (simp add: extends_call assms)
qed

lemma ext_on_incoming:
  assumes "\<And>l. P (Log l)" "\<And>x. P (Swap_incoming x)" "\<And>x b. P (Append_outgoing x b)"
  shows "extends P st (on_incoming env t st i)"
  by (simp add: on_incoming_def forward_def extends_def Let_def assms)

lemma ext_drain_incoming:
  assumes "\<And>l. P (Log l)" "\<And>x. P (Swap_incoming x)" "\<And>x b. P (Append_outgoing x b)"
    "\<And>x. P (Next_incoming x)"
  shows "extends P st (drain_incoming env t st is)"
proof (induction "is" arbitrary: st)
  case Nil
  then show ?case by (simp add: extends_call assms)
next
  case (Cons i "is")
  have a: "extends P st (call (Next_incoming (fst i)) st)" by (simp add: extends_call assms)
  have b: "extends P s (on_incoming env t s i)" for s
    by (rule ext_on_incoming; rule assms)
  show ?case
    using extends_trans[OF extends_trans[OF a b] Cons]
    by (simp add: extends_call assms)
qed

lemma ext_idle_reap:
  assumes "\<And>l. P (Log l)" "\<And>x. P (Disconnect x)"
  shows "extends P st (idle_reap env t st)"
proof -
  have "extends P s (reap_one env t s p)" for s p
    by (simp add: reap_one_def extends_def assms)
  then show ?thesis by (simp add: idle_reap_def extends_foldl extends_refl)
qed

lemma written_no_writef: "list_all no_writef cs \<Longrightarrow> written d cs = []"
proof (induction cs)
  case Nil
  then show ?case by simp
next
  case (Cons c cs)
  then show ?case by (cases c) simp_all
qed

lemma written_extends: "extends no_writef st st' \<Longrightarrow> written d (calls st') = written d (calls st)"
  by (auto simp: extends_def written_no_writef)

lemma written_before_connections:
  "written d (calls (before_connections env st ev)) = written d (calls st)"
proof -
  let ?st1 = "foldl on_signal (st\<lparr>alarmed := False\<rparr>) (signals ev)"
  have "extends no_writef (st\<lparr>alarmed := False\<rparr>) ?st1" by (rule ext_signals) simp
  moreover have "extends no_writef ?st1 (poll (serve_result ev) ?st1)" by (rule ext_poll) simp_all
  moreover have "extends no_writef (poll (serve_result ev) ?st1)
     (drain_disconnections env (poll (serve_result ev) ?st1) (disconnections ev))"
    by (rule ext_drain_disconnections) simp_all
  ultimately have "extends no_writef (st\<lparr>alarmed := False\<rparr>)
     (drain_disconnections env (poll (serve_result ev) ?st1) (disconnections ev))"
    using extends_trans by blast
  then have "written d (calls (drain_disconnections env (poll (serve_result ev) ?st1) (disconnections ev)))
      = written d (calls (st\<lparr>alarmed := False\<rparr>))" by (rule written_extends)
  then show ?thesis by (simp add: before_connections_def)
qed

subsection \<open>A batch of connections, one at a time\<close>

lemma drain_connections_append:
  "NO_DESCRIPTOR env \<notin> fst ` set cs1 \<Longrightarrow>
   drain_connections env t st (cs1 @ cs2) = drain_connections env t (connect_all env t st cs1) cs2"
  by (induction cs1 arbitrary: st) (simp_all add: connect_all_def)

lemma drain_connections_all:
  "NO_DESCRIPTOR env \<notin> fst ` set cs \<Longrightarrow>
   drain_connections env t st cs = call (Next_connection (NO_DESCRIPTOR env)) (connect_all env t st cs)"
  using drain_connections_append[of env cs t st "[]"] by simp

text \<open>What one connection leaves alone.\<close>

lemma on_connection_written_other:
  "fst c \<noteq> d \<Longrightarrow> written d (calls (on_connection env t st c)) = written d (calls st)"
  by (simp add: on_connection_def on_supply_def on_demand_def on_driver_def Let_def)

lemma on_connection_timestamp:
  "timestamp_map (on_connection env t st c) =
    (let m = AList.update (fst c) t (timestamp_map st) in
     if snd c = supply_descriptor env
     then (if unmet_demand st = [] then m else AList.update (hd (unmet_demand st)) t m)
     else if snd c = demand_descriptor env
     then (if unmet_supply st = [] then m else AList.update (hd (unmet_supply st)) t m)
     else if snd c = driver_descriptor env \<and> driver_descriptor env \<noteq> NO_DESCRIPTOR env
     then AList.update (fst c) (t + 1) m
     else m)"
  by (simp add: on_connection_def on_supply_def on_demand_def on_driver_def Let_def)

lemma on_connection_unmet:
  "unmet (on_connection env t st c) \<subseteq> insert (fst c) (unmet st)"
proof -
  obtain s d us ud dr where t: "tables (on_connection env t st c) = (s, d, us, ud, dr)"
    using prod_cases5 by blast
  have "set us \<union> set ud \<subseteq> insert (fst c) (unmet st)"
    using t unfolding on_connection_tables Let_def unmet_def
    by (auto simp: tables_def split: if_splits)
  moreover have "unmet (on_connection env t st c) = set us \<union> set ud"
    using t by (simp add: unmet_def tables_def)
  ultimately show ?thesis by simp
qed

lemma on_connection_timestamp_other:
  assumes "fst c \<noteq> d" "d \<notin> unmet st"
  shows "map_of (timestamp_map (on_connection env t st c)) d = map_of (timestamp_map st) d"
proof -
  have h: "xs \<noteq> [] \<Longrightarrow> hd xs \<in> set xs" for xs :: "descriptor list" by simp
  have a: "unmet_demand st \<noteq> [] \<Longrightarrow> hd (unmet_demand st) \<noteq> d"
    and b: "unmet_supply st \<noteq> [] \<Longrightarrow> hd (unmet_supply st) \<noteq> d"
    using assms(2) h[of "unmet_supply st"] h[of "unmet_demand st"] by (auto simp: unmet_def)
  show ?thesis
  proof (cases "snd c = supply_descriptor env")
    case True
    show ?thesis
    proof (cases "unmet_demand st = []")
      case e: True
      show ?thesis using True e assms(1) by (simp add: on_connection_timestamp update_conv')
    next
      case e: False
      show ?thesis using True e assms(1) a[OF e] by (simp add: on_connection_timestamp update_conv')
    qed
  next
    case ns: False
    show ?thesis
    proof (cases "snd c = demand_descriptor env")
      case True
      show ?thesis
      proof (cases "unmet_supply st = []")
        case e: True
        show ?thesis using ns True e assms(1) by (simp add: on_connection_timestamp update_conv')
      next
        case e: False
        show ?thesis using ns True e assms(1) b[OF e] by (simp add: on_connection_timestamp update_conv')
      qed
    next
      case False
      show ?thesis using ns False assms(1) by (simp add: on_connection_timestamp update_conv' Let_def)
    qed
  qed
qed

lemma on_connection_unmet_other:
  "fst c \<noteq> d \<Longrightarrow> d \<notin> unmet st \<Longrightarrow> d \<notin> unmet (on_connection env t st c)"
  using on_connection_unmet[of env t st c] by blast

lemma on_connection_drivers:
  "drivers (on_connection env t st c) =
     (if snd c \<noteq> supply_descriptor env \<and> snd c \<noteq> demand_descriptor env \<and>
         snd c = driver_descriptor env \<and> driver_descriptor env \<noteq> NO_DESCRIPTOR env
      then List.insert (fst c) (drivers st) else drivers st)"
  by (simp add: on_connection_def on_supply_def on_demand_def on_driver_def Let_def)

lemma on_connection_drivers_mono:
  "set (drivers st) \<subseteq> set (drivers (on_connection env t st c))"
  by (auto simp: on_connection_drivers)

lemma on_connection_distinct_drivers:
  "distinct (drivers st) \<Longrightarrow> distinct (drivers (on_connection env t st c))"
  by (simp add: on_connection_drivers)

lemma connect_all_other:
  assumes "d \<notin> fst ` set cs" "d \<notin> unmet st"
  shows "written d (calls (connect_all env t st cs)) = written d (calls st) \<and>
         map_of (timestamp_map (connect_all env t st cs)) d = map_of (timestamp_map st) d \<and>
         d \<notin> unmet (connect_all env t st cs)"
  using assms
proof (induction cs arbitrary: st)
  case Nil
  then show ?case by (simp add: connect_all_def)
next
  case (Cons c cs)
  let ?s1 = "call (Next_connection (fst c)) st"
  let ?s2 = "on_connection env t ?s1 c"
  have ne: "fst c \<noteq> d" and nin: "d \<notin> fst ` set cs" using Cons.prems(1) by auto
  have u1: "d \<notin> unmet ?s1" using Cons.prems(2) by simp
  have w: "written d (calls ?s2) = written d (calls st)"
    using on_connection_written_other[OF ne, of env t ?s1] by simp
  have m: "map_of (timestamp_map ?s2) d = map_of (timestamp_map st) d"
    using on_connection_timestamp_other[OF ne u1, of env t] by simp
  have u: "d \<notin> unmet ?s2" by (rule on_connection_unmet_other[OF ne u1])
  have "connect_all env t st (c # cs) = connect_all env t ?s2 cs" by (simp add: connect_all_def)
  then show ?case using Cons.IH[OF nin u] w m by simp
qed

lemma connect_all_drivers_mono: "set (drivers st) \<subseteq> set (drivers (connect_all env t st cs))"
proof (induction cs arbitrary: st)
  case Nil
  then show ?case by (simp add: connect_all_def)
next
  case (Cons c cs)
  have "set (drivers st) \<subseteq> set (drivers (on_connection env t (call (Next_connection (fst c)) st) c))"
    using on_connection_drivers_mono[of "call (Next_connection (fst c)) st" env t c] by simp
  then show ?case using Cons[of "on_connection env t (call (Next_connection (fst c)) st) c"]
    by (simp add: connect_all_def)
qed

lemma connect_all_distinct_drivers:
  "distinct (drivers st) \<Longrightarrow> distinct (drivers (connect_all env t st cs))"
proof (induction cs arbitrary: st)
  case Nil
  then show ?case by (simp add: connect_all_def)
next
  case (Cons c cs)
  have "distinct (drivers (on_connection env t (call (Next_connection (fst c)) st) c))"
    by (rule on_connection_distinct_drivers) (use Cons.prems in simp)
  then show ?case using Cons.IH by (simp add: connect_all_def)
qed

lemma connect_all_new_demand_etc:
  "tables (drain_connections env t st cs) = tables (connect_all env t st cs)"
  if "NO_DESCRIPTOR env \<notin> fst ` set cs"
  by (simp add: drain_connections_all[OF that])

text \<open>The connection of a driver, lines 218-228.\<close>

lemma on_connection_driver:
  assumes "snd c = driver_descriptor env" "driver_descriptor env \<noteq> NO_DESCRIPTOR env"
    "driver_descriptor env \<noteq> supply_descriptor env" "driver_descriptor env \<noteq> demand_descriptor env"
  shows "on_connection env t st c =
     st\<lparr>drivers := List.insert (fst c) (drivers st),
        timestamp_map := AList.update (fst c) (t + 1) (AList.update (fst c) t (timestamp_map st)),
        calls := calls st @ [Log (New_connection (fst c)), Writef (fst c) (lu_line (length (unmet_demand st)))]\<rparr>"
  using assms by (simp add: on_connection_def on_driver_def Let_def call_def log_def)

lemma distinct_drivers_on_disconnection:
  "distinct (drivers st) \<Longrightarrow> distinct (drivers (on_disconnection env st d))"
  by (simp add: on_disconnection_def take_peer_def drop_peer_def Let_def distinct_removeAll split: prod.splits)

lemma distinct_drivers_drain_disconnections:
  "distinct (drivers st) \<Longrightarrow> distinct (drivers (drain_disconnections env st ds))"
proof (induction ds arbitrary: st)
  case Nil
  then show ?case by simp
next
  case (Cons d ds)
  have "distinct (drivers (on_disconnection env (call (Next_disconnection d) st) d))"
    by (rule distinct_drivers_on_disconnection) (use Cons.prems in simp)
  then show ?case using Cons by simp
qed

lemma distinct_drivers_before_connections:
  assumes "distinct (drivers st)"
  shows "distinct (drivers (before_connections env st ev))"
proof -
  let ?st2 = "poll (serve_result ev) (foldl on_signal (st\<lparr>alarmed := False\<rparr>) (signals ev))"
  have "tables ?st2 = tables st" by (simp add: tables_def[of "st\<lparr>alarmed := False\<rparr>"] tables_def[of st])
  then have "drivers ?st2 = drivers st" by (rule tables_eqD)
  then have "distinct (drivers (drain_disconnections env ?st2 (disconnections ev)))"
    using distinct_drivers_drain_disconnections assms by simp
  then show ?thesis by (simp add: before_connections_def)
qed

lemma drain_connections_takeWhile:
  "drain_connections env t st cs =
     call (Next_connection (NO_DESCRIPTOR env))
       (connect_all env t st (takeWhile (\<lambda>c. fst c \<noteq> NO_DESCRIPTOR env) cs))"
  by (induction cs arbitrary: st) (simp_all add: connect_all_def)

lemma fst_takeWhile: "d \<notin> fst ` set cs \<Longrightarrow> d \<notin> fst ` set (takeWhile P cs)"
  by (induction cs) auto

lemma drain_connections_other:
  assumes "d \<notin> fst ` set cs" "d \<notin> unmet st"
  shows "written d (calls (drain_connections env t st cs)) = written d (calls st)"
    and "map_of (timestamp_map (drain_connections env t st cs)) d = map_of (timestamp_map st) d"
proof -
  let ?cs = "takeWhile (\<lambda>c. fst c \<noteq> NO_DESCRIPTOR env) cs"
  have "d \<notin> fst ` set ?cs" using assms(1) by (rule fst_takeWhile)
  from connect_all_other[OF this assms(2), of env t]
  show "written d (calls (drain_connections env t st cs)) = written d (calls st)"
    and "map_of (timestamp_map (drain_connections env t st cs)) d = map_of (timestamp_map st) d"
    by (simp_all add: drain_connections_takeWhile)
qed

lemma drain_connections_drivers:
  "set (drivers st) \<subseteq> set (drivers (drain_connections env t st cs))"
  "distinct (drivers st) \<Longrightarrow> distinct (drivers (drain_connections env t st cs))"
  by (simp_all add: drain_connections_takeWhile connect_all_drivers_mono connect_all_distinct_drivers)

lemma counters_call [simp]: "counters (call c st) = counters st"
  by (simp add: counters_def)

lemma counters_publish [simp]: "counters (publish env t st) = counters st"
proof -
  have "counters (publish_one env t s d) = counters s" for s d
    by (simp add: publish_one_def counters_def Let_def split: prod.splits)
  then have "counters (foldl (publish_one env t) s ds) = counters s" for s ds
    by (induction ds arbitrary: s) simp_all
  then show ?thesis by (simp add: publish_def)
qed

lemma counters_on_incoming [simp]: "counters (on_incoming env t st i) = counters st"
  by (simp add: on_incoming_def forward_def counters_def Let_def)

lemma counters_drain_incoming [simp]: "counters (drain_incoming env t st is) = counters st"
  by (induction "is" arbitrary: st) simp_all

lemma counters_idle_reap [simp]: "counters (idle_reap env t st) = counters st"
proof -
  have "counters (foldl (reap_one env t) s ps) = counters s" for s ps
    by (induction ps arbitrary: s) (simp_all add: reap_one_def counters_def)
  then show ?thesis by (simp add: idle_reap_def)
qed

lemma timestamp_map_idle_reap [simp]: "timestamp_map (idle_reap env t st) = timestamp_map st"
proof -
  have "timestamp_map (foldl (reap_one env t) s ps) = timestamp_map s" for s ps
    by (induction ps arbitrary: s) (simp_all add: reap_one_def)
  then show ?thesis by (simp add: idle_reap_def)
qed

text \<open>The incoming drain writes only the current timestamp.\<close>

lemma on_incoming_timestamp:
  "map_of (timestamp_map (on_incoming env t st i)) d = Some t \<or>
   map_of (timestamp_map (on_incoming env t st i)) d = map_of (timestamp_map st) d"
  by (simp add: on_incoming_def forward_def Let_def update_conv')

lemma on_incoming_timestamp_self:
  "map_of (timestamp_map (on_incoming env t st i)) (fst i) = Some t"
  by (simp add: on_incoming_def Let_def update_conv')

lemma on_incoming_timestamp_keeps:
  "map_of (timestamp_map st) d = Some t \<Longrightarrow> map_of (timestamp_map (on_incoming env t st i)) d = Some t"
  using on_incoming_timestamp[of env t st i d] by auto

lemma drain_incoming_timestamp_keeps:
  "map_of (timestamp_map st) d = Some t \<Longrightarrow> map_of (timestamp_map (drain_incoming env t st is)) d = Some t"
proof (induction "is" arbitrary: st)
  case Nil
  then show ?case by simp
next
  case (Cons i "is")
  have "map_of (timestamp_map (on_incoming env t (call (Next_incoming (fst i)) st) i)) d = Some t"
    by (rule on_incoming_timestamp_keeps) (use Cons.prems in simp)
  then show ?case using Cons.IH Cons.prems by simp
qed

lemma drain_incoming_timestamp:
  "map_of (timestamp_map (drain_incoming env t st is)) d = Some t \<or>
   map_of (timestamp_map (drain_incoming env t st is)) d = map_of (timestamp_map st) d"
proof (induction "is" arbitrary: st)
  case Nil
  then show ?case by simp
next
  case (Cons i "is")
  let ?s = "on_incoming env t (call (Next_incoming (fst i)) st) i"
  have "map_of (timestamp_map ?s) d = Some t \<or> map_of (timestamp_map ?s) d = map_of (timestamp_map st) d"
    using on_incoming_timestamp[of env t "call (Next_incoming (fst i)) st" i d] by simp
  then show ?case
    using Cons.IH[of ?s] drain_incoming_timestamp_keeps[of ?s d t env "is"] by auto
qed

lemma written_drain_incoming [simp]:
  "written d (calls (drain_incoming env t st is)) = written d (calls st)"
  by (rule written_extends, rule ext_drain_incoming) simp_all

lemma written_idle_reap [simp]:
  "written d (calls (idle_reap env t st)) = written d (calls st)"
  by (rule written_extends, rule ext_idle_reap) simp_all

text \<open>The publication pass and a driver whose timestamp is ahead.\<close>

lemma publish_ahead:
  assumes "d \<in> set (drivers st)" "distinct (drivers st)" "map_of (timestamp_map st) d = Some v" "v > t"
  shows "written d (calls (publish env t st)) = written d (calls st)"
    and "new_demand st \<noteq> 0 \<or> alarmed st \<Longrightarrow> map_of (timestamp_map (publish env t st)) d = Some t"
proof -
  have la: "last_activity st d > t" using assms(3,4) by (simp add: last_activity_def)
  then have p: "published env t st d = []" by (simp add: published_def)
  show "written d (calls (publish env t st)) = written d (calls st)"
    using publish_fold_written[OF assms(2), of d env t st] p by (simp add: publish_def)
  show "map_of (timestamp_map (publish env t st)) d = Some t" if "new_demand st \<noteq> 0 \<or> alarmed st"
    using that publish_fold_timestamp[OF assms(2), of env t st d] assms(1) la
    by (simp add: publish_def publish_one_timestamp_self)
qed

subsection \<open>A driver that was there before the iteration\<close>

lemma drain_incoming_sets_timestamp:
  "NO_DESCRIPTOR env \<notin> fst ` set is \<Longrightarrow> x \<in> fst ` set is \<Longrightarrow>
   map_of (timestamp_map (drain_incoming env t st is)) x = Some t"
proof (induction "is" arbitrary: st)
  case Nil
  then show ?case by simp
next
  case (Cons i "is")
  let ?s = "on_incoming env t (call (Next_incoming (fst i)) st) i"
  have n: "fst i \<noteq> NO_DESCRIPTOR env" "NO_DESCRIPTOR env \<notin> fst ` set is" using Cons.prems(1) by auto
  show ?case
  proof (cases "x = fst i")
    case True
    have "map_of (timestamp_map ?s) x = Some t" unfolding True by (rule on_incoming_timestamp_self)
    then show ?thesis using n drain_incoming_timestamp_keeps by simp
  next
    case False
    then have "x \<in> fst ` set is" using Cons.prems(2) by auto
    then show ?thesis using Cons.IH[OF n(2)] n(1) by simp
  qed
qed

lemma on_incoming_driver:
  "fst i \<in> set (drivers st) \<Longrightarrow>
   on_incoming env t st i =
     st\<lparr>timestamp_map := AList.update (fst i) t (timestamp_map st),
        calls := calls st @ [Swap_incoming (fst i)]\<rparr>"
  by (simp add: on_incoming_def Let_def call_def)

text \<open>A disconnection of another descriptor leaves a driver and its timestamp alone.\<close>

lemma on_disconnection_timestamp_map:
  "timestamp_map (on_disconnection env st x) = AList.delete x (timestamp_map st)"
  by (simp add: on_disconnection_def take_peer_def drop_peer_def Let_def split: prod.splits)

lemma on_disconnection_drivers:
  "drivers (on_disconnection env st x) = removeAll x (drivers st)"
  by (simp add: on_disconnection_def take_peer_def drop_peer_def Let_def split: prod.splits)

lemma drain_disconnections_keeps_timestamp:
  "d \<notin> set ds \<Longrightarrow>
   map_of (timestamp_map (drain_disconnections env st ds)) d = map_of (timestamp_map st) d"
proof (induction ds arbitrary: st)
  case Nil
  then show ?case by simp
next
  case (Cons x xs)
  let ?s = "on_disconnection env (call (Next_disconnection x) st) x"
  have "map_of (timestamp_map ?s) d = map_of (timestamp_map st) d"
    using Cons.prems by (simp add: on_disconnection_timestamp_map delete_conv')
  moreover have "map_of (timestamp_map (drain_disconnections env ?s xs)) d = map_of (timestamp_map ?s) d"
    by (rule Cons.IH) (use Cons.prems in simp)
  ultimately show ?case by simp
qed

lemma drain_disconnections_keeps_driver:
  "d \<notin> set ds \<Longrightarrow> d \<in> set (drivers st) \<Longrightarrow> d \<in> set (drivers (drain_disconnections env st ds))"
proof (induction ds arbitrary: st)
  case Nil
  then show ?case by simp
next
  case (Cons x xs)
  let ?s = "on_disconnection env (call (Next_disconnection x) st) x"
  have "d \<in> set (drivers ?s)" using Cons.prems by (simp add: on_disconnection_drivers)
  moreover have "d \<notin> set xs" using Cons.prems by simp
  ultimately have "d \<in> set (drivers (drain_disconnections env ?s xs))" by (rule Cons.IH[rotated])
  then show ?case using Cons.prems(2) by simp
qed

lemma before_connections_keeps:
  assumes "d \<notin> set (disconnections ev)"
  shows "map_of (timestamp_map (before_connections env st ev)) d = map_of (timestamp_map st) d"
    and "d \<in> set (drivers st) \<Longrightarrow> d \<in> set (drivers (before_connections env st ev))"
proof -
  let ?st2 = "poll (serve_result ev) (foldl on_signal (st\<lparr>alarmed := False\<rparr>) (signals ev))"
  have t: "timestamp_map ?st2 = timestamp_map st" by (simp add: poll_def Let_def)
  have "tables ?st2 = tables st" by (simp add: tables_def[of "st\<lparr>alarmed := False\<rparr>"] tables_def[of st])
  then have dr: "drivers ?st2 = drivers st" by (rule tables_eqD)
  show "map_of (timestamp_map (before_connections env st ev)) d = map_of (timestamp_map st) d"
    using drain_disconnections_keeps_timestamp[OF assms, of env ?st2] t by (simp add: before_connections_def)
  show "d \<in> set (drivers (before_connections env st ev))" if "d \<in> set (drivers st)"
    using drain_disconnections_keeps_driver[OF assms, of ?st2 env] that dr by (simp add: before_connections_def)
qed

text \<open>Another descriptor's connection leaves a timestamp as it is or makes it the current one.\<close>

lemma on_connection_timestamp_or:
  assumes "fst c \<noteq> d"
  shows "map_of (timestamp_map (on_connection env t st c)) d = map_of (timestamp_map st) d \<or>
         map_of (timestamp_map (on_connection env t st c)) d = Some t"
proof -
  let ?m = "AList.update (fst c) t (timestamp_map st)"
  have m: "map_of ?m d = map_of (timestamp_map st) d"
    using assms by (simp add: update_conv')
  have u: "map_of (AList.update k t ?m) d = map_of (timestamp_map st) d \<or>
           map_of (AList.update k t ?m) d = Some t" for k
    using m by (cases "k = d") (simp_all add: update_conv')
  have s: "map_of (AList.update (fst c) (t + 1) ?m) d = map_of (timestamp_map st) d"
    using assms by (simp add: update_conv')
  show ?thesis
  proof (cases "snd c = supply_descriptor env")
    case True
    show ?thesis
    proof (cases "unmet_demand st = []")
      case e: True
      show ?thesis using True e m by (simp add: on_connection_timestamp)
    next
      case e: False
      show ?thesis using True e u[of "hd (unmet_demand st)"] by (simp add: on_connection_timestamp)
    qed
  next
    case ns: False
    show ?thesis
    proof (cases "snd c = demand_descriptor env")
      case True
      show ?thesis
      proof (cases "unmet_supply st = []")
        case e: True
        show ?thesis using ns True e m by (simp add: on_connection_timestamp)
      next
        case e: False
        show ?thesis using ns True e u[of "hd (unmet_supply st)"] by (simp add: on_connection_timestamp)
      qed
    next
      case nd: False
      show ?thesis using ns nd m s by (simp add: on_connection_timestamp Let_def)
    qed
  qed
qed

lemma connect_all_timestamp_le:
  assumes "d \<notin> fst ` set cs" "map_of (timestamp_map st) d = Some v" "v \<le> t"
  shows "\<exists>v'. map_of (timestamp_map (connect_all env t st cs)) d = Some v' \<and> v' \<le> t"
  using assms
proof (induction cs arbitrary: st v)
  case Nil
  then show ?case by (simp add: connect_all_def)
next
  case (Cons c cs)
  let ?s = "on_connection env t (call (Next_connection (fst c)) st) c"
  have ne: "fst c \<noteq> d" and nin: "d \<notin> fst ` set cs" using Cons.prems(1) by auto
  have "map_of (timestamp_map ?s) d = Some v \<or> map_of (timestamp_map ?s) d = Some t"
    using on_connection_timestamp_or[OF ne, of env t "call (Next_connection (fst c)) st"] Cons.prems(2)
    by simp
  then obtain v' where "map_of (timestamp_map ?s) d = Some v'" "v' \<le> t"
    using Cons.prems(3) by auto
  from Cons.IH[OF nin this]
  show ?case by (simp add: connect_all_def)
qed

lemma drain_connections_timestamp_le:
  assumes "d \<notin> fst ` set cs" "map_of (timestamp_map st) d = Some v" "v \<le> t"
  shows "\<exists>v'. map_of (timestamp_map (drain_connections env t st cs)) d = Some v' \<and> v' \<le> t"
proof -
  let ?cs = "takeWhile (\<lambda>c. fst c \<noteq> NO_DESCRIPTOR env) cs"
  have "d \<notin> fst ` set ?cs" using assms(1) by (rule fst_takeWhile)
  from connect_all_timestamp_le[OF this assms(2,3), of env]
  show ?thesis by (simp add: drain_connections_takeWhile)
qed

lemma drain_connections_written_other:
  assumes "d \<notin> fst ` set cs"
  shows "written d (calls (drain_connections env t st cs)) = written d (calls st)"
proof -
  have "written d (calls (connect_all env t s xs)) = written d (calls s)" if "d \<notin> fst ` set xs" for s xs
    using that
  proof (induction xs arbitrary: s)
    case Nil
    then show ?case by (simp add: connect_all_def)
  next
    case (Cons c xs)
    have ne: "fst c \<noteq> d" and nin: "d \<notin> fst ` set xs" using Cons.prems by auto
    have "written d (calls (on_connection env t (call (Next_connection (fst c)) s) c)) = written d (calls s)"
      using on_connection_written_other[OF ne, of env t "call (Next_connection (fst c)) s"] by simp
    then show ?case using Cons.IH[OF nin] by (simp add: connect_all_def)
  qed
  moreover have "d \<notin> fst ` set (takeWhile (\<lambda>c. fst c \<noteq> NO_DESCRIPTOR env) cs)"
    using assms by (rule fst_takeWhile)
  ultimately show ?thesis by (simp add: drain_connections_takeWhile)
qed

text \<open>The publication pass and a driver whose timestamp is not ahead.\<close>

lemma publish_delta:
  assumes "d \<in> set (drivers st)" "distinct (drivers st)" "map_of (timestamp_map st) d = Some v" "v \<le> t"
    "new_demand st \<noteq> 0"
  shows "written d (calls (publish env t st)) = written d (calls st) @ [lu_line (new_demand st)]"
proof -
  have "\<not> last_activity st d > t" using assms(3,4) by (simp add: last_activity_def)
  then have p: "published env t st d = [lu_line (new_demand st)]" using assms(5) by (simp add: published_def)
  show ?thesis
    using publish_fold_written[OF assms(2), of d env t st] p assms(1,5) by (simp add: publish_def)
qed

text \<open>A whole iteration and a driver that was there before it.\<close>

lemma driver_gets_delta:
  assumes run: "\<not> terminated (intake st ev)"
    and drv: "d \<in> set (drivers st)" "distinct (drivers st)"
    and last: "map_of (timestamp_map st) d = Some v" "v \<le> now ev"
    and alive: "d \<notin> set (disconnections ev)" "d \<notin> fst ` set (connections ev)"
    and nd: "new_demand (iteration env st ev) \<noteq> 0"
  shows "written d (calls (iteration env st ev)) =
           written d (calls st) @ [lu_line (new_demand (iteration env st ev))]"
proof -
  let ?t = "now ev"
  let ?st4 = "before_connections env st ev"
  let ?st5 = "drain_connections env ?t ?st4 (connections ev)"
  let ?st6 = "publish env ?t ?st5"
  have nt: "\<not> terminated (foldl on_signal (st\<lparr>alarmed := False\<rparr>) (signals ev))"
    using run by (simp add: intake_def)
  have it: "iteration env st ev = idle_reap env ?t (drain_incoming env ?t ?st6 (incoming ev))"
    by (rule iteration_before_connections[OF nt])
  have "counters (iteration env st ev) = counters ?st5" unfolding it by simp
  then have n5: "new_demand (iteration env st ev) = new_demand ?st5" by (simp add: counters_def)
  have t4: "map_of (timestamp_map ?st4) d = Some v" using before_connections_keeps(1)[OF alive(1)] last(1) by simp
  have d4: "d \<in> set (drivers ?st4)" "distinct (drivers ?st4)"
    using before_connections_keeps(2)[OF alive(1) drv(1)] distinct_drivers_before_connections[OF drv(2)]
    by simp_all
  obtain v' where t5: "map_of (timestamp_map ?st5) d = Some v'" "v' \<le> ?t"
    using drain_connections_timestamp_le[OF alive(2) t4 last(2)] by blast
  have d5: "d \<in> set (drivers ?st5)" "distinct (drivers ?st5)"
    using drain_connections_drivers[of ?st4 env ?t "connections ev"] d4 by auto
  have w5: "written d (calls ?st5) = written d (calls st)"
    using drain_connections_written_other[OF alive(2)] by (simp add: written_before_connections)
  have "written d (calls ?st6) = written d (calls ?st5) @ [lu_line (new_demand ?st5)]"
    by (rule publish_delta[OF d5 t5]) (use nd n5 in simp)
  then show ?thesis unfolding it using w5 n5 it by simp
qed

subsection \<open>The idle reaper\<close>

lemma disconnects_append [simp]: "disconnects (xs @ ys) = disconnects xs @ disconnects ys"
  by (induction xs rule: disconnects.induct) simp_all

lemma reap_fold_calls:
  "calls (foldl (reap_one env t) st ps) =
     calls st @ concat (map (\<lambda>p. if t - snd p \<ge> int (idle_timeout env)
                                   then (if is_verbose env then [Log (Timed_out (fst p))] else []) @ [Disconnect (fst p)]
                                   else []) ps)"
proof (induction ps arbitrary: st)
  case Nil
  then show ?case by simp
next
  case (Cons p ps)
  have "calls (reap_one env t st p) =
      calls st @ (if t - snd p \<ge> int (idle_timeout env)
                  then (if is_verbose env then [Log (Timed_out (fst p))] else []) @ [Disconnect (fst p)]
                  else [])"
    by (simp add: reap_one_def)
  then show ?case using Cons[of "reap_one env t st p"] by simp
qed

lemma disconnects_reaped:
  "disconnects (concat (map (\<lambda>p. if t - snd p \<ge> int (idle_timeout env)
                                   then (if is_verbose env then [Log (Timed_out (fst p))] else []) @ [Disconnect (fst p)]
                                   else []) ps)) =
   map fst (filter (\<lambda>p. t - snd p \<ge> int (idle_timeout env)) ps)"
  by (induction ps) simp_all

lemma idle_reap_disconnects:
  "disconnects (calls (idle_reap env t st)) =
     disconnects (calls st) @ (if idle_timeout env > 0 \<and> alarmed st then timed_out env t st else [])"
  by (simp add: idle_reap_def reap_fold_calls disconnects_reaped timed_out_def)

text \<open>\<^verbatim>\<open>alarmed\<close> is written by the signal intake only.\<close>

lemma alarmed_on_disconnection [simp]: "alarmed (on_disconnection env st d) = alarmed st"
  by (simp add: on_disconnection_def take_peer_def drop_peer_def Let_def split: prod.splits)

lemma alarmed_drain_disconnections [simp]: "alarmed (drain_disconnections env st ds) = alarmed st"
  by (induction ds arbitrary: st) simp_all

lemma alarmed_on_connection [simp]: "alarmed (on_connection env t st c) = alarmed st"
  by (simp add: on_connection_def on_supply_def on_demand_def on_driver_def Let_def)

lemma alarmed_drain_connections [simp]: "alarmed (drain_connections env t st cs) = alarmed st"
  by (induction cs arbitrary: st) simp_all

lemma alarmed_poll [simp]: "alarmed (poll ok st) = alarmed st"
  by (simp add: poll_def Let_def)

lemma alarmed_before_reap: "alarmed (before_reap env st ev) = (SIGALRM \<in> set (signals ev))"
proof -
  have "alarmed (before_reap env st ev) =
        alarmed (drain_connections env (now ev) (before_connections env st ev) (connections ev))"
    using counters_drain_incoming counters_publish unfolding before_reap_def counters_def
    by (metis snd_conv)
  also have "\<dots> = alarmed (foldl on_signal (st\<lparr>alarmed := False\<rparr>) (signals ev))"
    by (simp add: before_connections_def)
  finally show ?thesis by (simp add: signals_alarmed)
qed

lemma iteration_before_reap:
  "\<not> terminated (intake st ev) \<Longrightarrow> iteration env st ev = idle_reap env (now ev) (before_reap env st ev)"
  by (simp add: iteration_def intake_def before_reap_def before_connections_def Let_def)

lemma timed_out_set:
  "set (timed_out env t st) =
     {d. \<exists>ts. (d, ts) \<in> set (timestamp_map st) \<and> t - ts \<ge> int (idle_timeout env)}"
  by (auto simp: timed_out_def image_iff)

lemma timed_out_ahead:
  assumes "map_of (timestamp_map st) d = Some ts" "distinct (map fst (timestamp_map st))" "t < ts"
  shows "d \<notin> set (timed_out env t st)"
proof
  assume "d \<in> set (timed_out env t st)"
  then obtain ts' where e: "(d, ts') \<in> set (timestamp_map st)" "t - ts' \<ge> int (idle_timeout env)"
    unfolding timed_out_set by blast
  have "map_of (timestamp_map st) d = Some ts'" using e(1) assms(2) by simp
  then have "ts' = ts" using assms(1) by simp
  then show False using e(2) assms(3) by simp
qed

subsection \<open>A pair torn down\<close>

















subsection \<open>A connection from no known listener\<close>

text \<open>Only a disconnection takes an entry out of \<open>timestamp_map\<close>.\<close>

lemma tkeys_on_connection:
  "keys (timestamp_map st) \<subseteq> keys (timestamp_map (on_connection env t st c))"
  by (auto simp: on_connection_timestamp Let_def)

lemma tkeys_connect_all:
  "keys (timestamp_map st) \<subseteq> keys (timestamp_map (connect_all env t st cs))"
proof (induction cs arbitrary: st)
  case Nil
  then show ?case by (simp add: connect_all_def)
next
  case (Cons c cs)
  let ?s = "on_connection env t (call (Next_connection (fst c)) st) c"
  have "keys (timestamp_map st) \<subseteq> keys (timestamp_map ?s)"
    using tkeys_on_connection[of "call (Next_connection (fst c)) st" env t c] by simp
  moreover have "connect_all env t st (c # cs) = connect_all env t ?s cs" by (simp add: connect_all_def)
  ultimately show ?case using Cons[of ?s] by auto
qed

lemma tkeys_drain_connections:
  "keys (timestamp_map st) \<subseteq> keys (timestamp_map (drain_connections env t st cs))"
  using tkeys_connect_all by (simp add: drain_connections_takeWhile)

lemma tkeys_publish_one:
  "keys (timestamp_map st) \<subseteq> keys (timestamp_map (publish_one env t st d))"
proof
  fix x assume "x \<in> keys (timestamp_map st)"
  then have a: "map_of (timestamp_map st) x \<noteq> None" by (simp add: keys_map_of)
  have "map_of (timestamp_map (publish_one env t st d)) x \<noteq> None"
  proof (cases "x = d")
    case True
    then show ?thesis by (simp add: publish_one_timestamp_self)
  next
    case False
    then show ?thesis using a by (simp add: publish_one_timestamp_other)
  qed
  then show "x \<in> keys (timestamp_map (publish_one env t st d))" by (simp add: keys_map_of)
qed

lemma tkeys_publish:
  "keys (timestamp_map st) \<subseteq> keys (timestamp_map (publish env t st))"
proof -
  have "keys (timestamp_map s) \<subseteq> keys (timestamp_map (foldl (publish_one env t) s ds))" for s ds
  proof (induction ds arbitrary: s)
    case Nil
    then show ?case by simp
  next
    case (Cons d ds)
    then show ?case using tkeys_publish_one[of s env t d] by (simp, blast)
  qed
  then show ?thesis by (simp add: publish_def)
qed

lemma tkeys_on_incoming:
  "keys (timestamp_map st) \<subseteq> keys (timestamp_map (on_incoming env t st i))"
  by (auto simp: on_incoming_def forward_def Let_def)

lemma tkeys_drain_incoming:
  "keys (timestamp_map st) \<subseteq> keys (timestamp_map (drain_incoming env t st is))"
proof (induction "is" arbitrary: st)
  case Nil
  then show ?case by simp
next
  case (Cons i "is")
  let ?s = "on_incoming env t (call (Next_incoming (fst i)) st) i"
  have "keys (timestamp_map st) \<subseteq> keys (timestamp_map ?s)"
    using tkeys_on_incoming[of "call (Next_incoming (fst i)) st" env t i] by simp
  then show ?case using Cons[of ?s] by auto
qed

lemma timestamp_map_shut_listeners [simp]:
  "timestamp_map (shut_listeners env st) = timestamp_map st"
  by (simp add: shut_listeners_def)

lemma iteration_keeps_timestamp:
  assumes "d \<notin> set (disconnections ev)" "map_of (timestamp_map st) d \<noteq> None"
  shows "map_of (timestamp_map (iteration env st ev)) d \<noteq> None"
proof (cases "terminated (intake st ev)")
  case True
  then have "iteration env st ev = shut_listeners env (intake st ev)" by (simp add: iteration_intake)
  then show ?thesis using assms(2) by (simp add: intake_def)
next
  case False
  let ?st4 = "before_connections env st ev"
  let ?st5 = "drain_connections env (now ev) ?st4 (connections ev)"
  let ?st6 = "publish env (now ev) ?st5"
  let ?st7 = "drain_incoming env (now ev) ?st6 (incoming ev)"
  have nt: "\<not> terminated (foldl on_signal (st\<lparr>alarmed := False\<rparr>) (signals ev))"
    using False by (simp add: intake_def)
  have "d \<in> keys (timestamp_map ?st4)"
    using before_connections_keeps(1)[OF assms(1), of env st] assms(2) by (simp add: keys_map_of)
  then have "d \<in> keys (timestamp_map ?st5)" using tkeys_drain_connections by blast
  then have "d \<in> keys (timestamp_map ?st6)" using tkeys_publish by blast
  then have "d \<in> keys (timestamp_map ?st7)" using tkeys_drain_incoming by blast
  then show ?thesis unfolding iteration_before_connections[OF nt] by (simp add: keys_map_of)
qed

text \<open>The tables gain only descriptors of new connections.\<close>

lemma tracked_tables_eq: "tables st' = tables st \<Longrightarrow> tracked st' = tracked st"
  by (simp add: tracked_def tables_def)

lemma shrinks_drain_disconnections: "shrinks (drain_disconnections env st ds) st"
proof (induction ds arbitrary: st)
  case Nil
  then show ?case by (simp add: shrinks_refl)
next
  case (Cons d ds)
  let ?s1 = "call (Next_disconnection d) st"
  have a: "shrinks ?s1 st" by (simp add: shrinks_refl)
  have "shrinks (on_disconnection env ?s1 d) st" using on_disconnection_shrinks a shrinks_trans by blast
  then have "shrinks (drain_disconnections env (on_disconnection env ?s1 d) ds) st"
    using Cons shrinks_trans by blast
  then show ?case by (simp add: shrinks_refl)
qed

lemma tracked_before_connections: "tracked (before_connections env st ev) \<subseteq> tracked st"
proof -
  let ?st2 = "poll (serve_result ev) (foldl on_signal (st\<lparr>alarmed := False\<rparr>) (signals ev))"
  let ?st3 = "drain_disconnections env ?st2 (disconnections ev)"
  have "tables ?st2 = tables st" by (simp add: tables_def[of "st\<lparr>alarmed := False\<rparr>"] tables_def[of st])
  then have "tracked ?st2 = tracked st" by (rule tracked_tables_eq)
  moreover have "tracked ?st3 \<subseteq> tracked ?st2" by (rule shrinks_tracked[OF shrinks_drain_disconnections])
  moreover have "tracked (?st3\<lparr>new_demand := 0\<rparr>) = tracked ?st3" by (simp add: tracked_def)
  ultimately show ?thesis unfolding before_connections_def by simp
qed

lemma tracked_connect_all: "tracked (connect_all env t st cs) \<subseteq> tracked st \<union> fst ` set cs"
proof (induction cs arbitrary: st)
  case Nil
  then show ?case by (simp add: connect_all_def)
next
  case (Cons c cs)
  let ?s = "on_connection env t (call (Next_connection (fst c)) st) c"
  have "tracked ?s \<subseteq> insert (fst c) (tracked st)"
    using on_connection_tracked[of env t "call (Next_connection (fst c)) st" c] by simp
  moreover have "connect_all env t st (c # cs) = connect_all env t ?s cs" by (simp add: connect_all_def)
  ultimately show ?case using Cons[of ?s] by auto
qed

lemma tracked_drain_connections: "tracked (drain_connections env t st cs) \<subseteq> tracked st \<union> fst ` set cs"
proof -
  have "fst ` set (takeWhile (\<lambda>c. fst c \<noteq> NO_DESCRIPTOR env) cs) \<subseteq> fst ` set cs"
    using fst_takeWhile[of _ cs] by blast
  then show ?thesis
    using tracked_connect_all[of env t st "takeWhile (\<lambda>c. fst c \<noteq> NO_DESCRIPTOR env) cs"]
    by (simp add: drain_connections_takeWhile) blast
qed

lemma tracked_iteration: "tracked (iteration env st ev) \<subseteq> tracked st \<union> fst ` set (connections ev)"
proof (cases "terminated (foldl on_signal (st\<lparr>alarmed := False\<rparr>) (signals ev))")
  case True
  then have "tables (iteration env st ev) = tables st" by (simp add: tables_iteration)
  then show ?thesis using tracked_tables_eq by blast
next
  case False
  let ?st5 = "drain_connections env (now ev) (before_connections env st ev) (connections ev)"
  have "tables (iteration env st ev) = tables ?st5"
    unfolding iteration_before_connections[OF False] by simp
  then have "tracked (iteration env st ev) = tracked ?st5" by (rule tracked_tables_eq)
  then show ?thesis
    using tracked_drain_connections[of env "now ev" "before_connections env st ev" "connections ev"]
      tracked_before_connections[of env st ev] by blast
qed

text \<open>\<^verbatim>\<open>freeze(d)\<close> is called only where \<open>d\<close> comes from the queue of new connections.\<close>

lemma no_freeze_on_connection:
  "fst c \<noteq> d \<Longrightarrow> extends (\<lambda>x. x \<noteq> Freeze d) st (on_connection env t st c)"
  by (simp add: on_connection_def on_supply_def on_demand_def on_driver_def Let_def extends_def)

lemma no_freeze_connect_all:
  "d \<notin> fst ` set cs \<Longrightarrow> extends (\<lambda>x. x \<noteq> Freeze d) st (connect_all env t st cs)"
proof (induction cs arbitrary: st)
  case Nil
  then show ?case by (simp add: connect_all_def extends_refl)
next
  case (Cons c cs)
  let ?s1 = "call (Next_connection (fst c)) st"
  let ?s = "on_connection env t ?s1 c"
  have ne: "fst c \<noteq> d" and nin: "d \<notin> fst ` set cs" using Cons.prems by auto
  have "extends (\<lambda>x. x \<noteq> Freeze d) st ?s1" by (simp add: extends_call)
  then have "extends (\<lambda>x. x \<noteq> Freeze d) st ?s"
    using no_freeze_on_connection[OF ne] extends_trans by blast
  then have "extends (\<lambda>x. x \<noteq> Freeze d) st (connect_all env t ?s cs)"
    using Cons.IH[OF nin] extends_trans by blast
  then show ?case by (simp add: connect_all_def)
qed

lemma no_freeze_drain_connections:
  assumes "d \<notin> fst ` set cs"
  shows "extends (\<lambda>x. x \<noteq> Freeze d) st (drain_connections env t st cs)"
proof -
  let ?cs = "takeWhile (\<lambda>c. fst c \<noteq> NO_DESCRIPTOR env) cs"
  have "d \<notin> fst ` set ?cs" using assms by (rule fst_takeWhile)
  then have "extends (\<lambda>x. x \<noteq> Freeze d) st (connect_all env t st ?cs)" by (rule no_freeze_connect_all)
  moreover have "extends (\<lambda>x. x \<noteq> Freeze d) (connect_all env t st ?cs)
      (call (Next_connection (NO_DESCRIPTOR env)) (connect_all env t st ?cs))"
    by (simp add: extends_call)
  ultimately show ?thesis unfolding drain_connections_takeWhile by (rule extends_trans)
qed

lemma no_freeze_iteration:
  assumes "d \<notin> fst ` set (connections ev)"
  shows "extends (\<lambda>x. x \<noteq> Freeze d) st (iteration env st ev)"
proof -
  let ?P = "\<lambda>x. x \<noteq> Freeze d"
  have n: "mux_neutral c \<Longrightarrow> ?P c" for c by (cases c) simp_all
  have m: "extends mux_neutral a b \<Longrightarrow> extends ?P a b" for a b
    by (rule extends_mono[where P = mux_neutral]) (simp_all add: n)
  let ?st0 = "st\<lparr>alarmed := False\<rparr>"
  let ?st1 = "foldl on_signal ?st0 (signals ev)"
  have e0: "extends ?P st ?st0" by (simp add: extends_refl)
  have e1: "extends ?P ?st0 ?st1" by (rule m, rule extends_foldl) (simp add: extends_on_signal)
  show ?thesis
  proof (cases "terminated ?st1")
    case True
    have "extends ?P ?st1 (shut_listeners env ?st1)" by (rule m) (rule extends_shut_listeners)
    then have "extends ?P st (shut_listeners env ?st1)" using e0 e1 extends_trans by blast
    then show ?thesis using True by (simp add: iteration_def Let_def)
  next
    case False
    let ?st2 = "poll (serve_result ev) ?st1"
    let ?st3 = "drain_disconnections env ?st2 (disconnections ev)"
    let ?st4 = "before_connections env st ev"
    let ?st5 = "drain_connections env (now ev) ?st4 (connections ev)"
    have e2: "extends ?P ?st1 ?st2" by (rule m) (rule extends_poll)
    have e3: "extends ?P ?st2 ?st3" by (rule ext_drain_disconnections) simp_all
    have e4: "extends ?P ?st3 ?st4" by (simp add: before_connections_def extends_def)
    have e5: "extends ?P ?st4 ?st5" by (rule no_freeze_drain_connections[OF assms])
    have e6: "extends ?P ?st5 (iteration env st ev)"
      unfolding iteration_before_connections[OF False]
      by (rule m, rule extends_trans[OF extends_trans[OF extends_publish extends_drain_incoming] extends_idle_reap])
    show ?thesis
      by (rule extends_trans[OF extends_trans[OF extends_trans[OF extends_trans[OF extends_trans[OF
            extends_trans[OF e0 e1] e2] e3] e4] e5] e6])
  qed
qed

lemma on_connection_forbidden:
  assumes "snd c \<noteq> supply_descriptor env" "snd c \<noteq> demand_descriptor env"
    "\<not> (snd c = driver_descriptor env \<and> driver_descriptor env \<noteq> NO_DESCRIPTOR env)"
  shows "on_connection env t st c =
     st\<lparr>timestamp_map := AList.update (fst c) t (timestamp_map st),
        calls := calls st @ [Log (New_connection (fst c)), Log (Forbidden_condition 229)]\<rparr>"
proof -
  have f: "(snd c = driver_descriptor env \<and> driver_descriptor env \<noteq> NO_DESCRIPTOR env) = False"
    using assms(3) by simp
  show ?thesis using assms(1,2) by (simp add: on_connection_def Let_def f call_def log_def)
qed

subsection \<open>An iteration that finds \<^verbatim>\<open>terminated\<close> set\<close>

lemma disconnects_logs [simp]: "disconnects (map (\<lambda>x. Log (f x)) xs) = []"
  by (induction xs) simp_all

lemma intake_disconnects: "disconnects (calls (intake st ev)) = disconnects (calls st)"
  by (simp add: intake_def signals_calls)

lemma iteration_shut:
  assumes "terminated (intake st ev)"
  shows "iteration env st ev = shut_listeners env (intake st ev)"
    and "disconnects (calls (iteration env st ev)) =
           disconnects (calls st) @ [demand_descriptor env, supply_descriptor env, driver_descriptor env]"
    and "timestamp_map (iteration env st ev) = timestamp_map st"
proof -
  show a: "iteration env st ev = shut_listeners env (intake st ev)"
    using assms by (simp add: iteration_intake)
  show "disconnects (calls (iteration env st ev)) =
           disconnects (calls st) @ [demand_descriptor env, supply_descriptor env, driver_descriptor env]"
    unfolding a by (simp add: shut_listeners_def call_def intake_disconnects)
  show "timestamp_map (iteration env st ev) = timestamp_map st"
    unfolding a by (simp add: intake_def)
qed

subsection \<open>A pair torn down within the drain of an iteration\<close>

lemma disconnect_all_Nil [simp]: "disconnect_all env st [] = st"
  by (simp add: disconnect_all_def)

lemma disconnect_all_Cons [simp]:
  "disconnect_all env st (d # ds) =
     disconnect_all env (on_disconnection env (call (Next_disconnection d) st) d) ds"
  by (simp add: disconnect_all_def)



















lemma forward_target_call [simp]: "forward_target env (call c st) d = forward_target env st d"
  by (simp add: forward_target_def)






















lemma no_double_match_loop:
  "no_double_match st \<Longrightarrow> \<forall>s \<in> set (loop_states env st evs). no_double_match s"
proof (induction evs arbitrary: st)
  case Nil
  then show ?case by simp
next
  case (Cons ev evs)
  then show ?case using iteration_ndm[of st env ev] by (auto simp: Let_def)
qed

subsection \<open>C3: the two waiting sets are never both non-empty\<close>

text \<open>
  C3. Starting from a state in which one of \<open>unmet_supply\<close>, \<open>unmet_demand\<close> is empty (the
  loop starts with both empty), at the end of every iteration the loop performs one of
  them is empty: \<open>|unmet_supply| * |unmet_demand| = 0\<close>. Nothing is assumed about the
  events.
\<close>

theorem unmet_never_both:
  assumes "unmet_supply st = [] \<or> unmet_demand st = []"
  shows "\<forall>s \<in> set (loop_states env st evs). length (unmet_supply s) * length (unmet_demand s) = 0"
  using no_double_match_loop[of st env evs] assms by (simp add: no_double_match_def)

theorem unmet_never_both_witness:
  "(unmet_supply (start env0) = [] \<or> unmet_demand (start env0) = []) \<and>
   map (\<lambda>s. (unmet_supply s, unmet_demand s))
     (loop_states env0 (start env0)
        [quiet\<lparr>connections := [(10, 3), (11, 3)]\<rparr>,
         quiet\<lparr>connections := [(12, 4), (13, 4), (14, 4)]\<rparr>]) =
     [([11, 10], []), ([], [14])] \<and>
   list_all (\<lambda>s. length (unmet_supply s) * length (unmet_demand s) = 0)
     (loop_states env0 (start env0)
        [quiet\<lparr>connections := [(10, 3), (11, 3)]\<rparr>,
         quiet\<lparr>connections := [(12, 4), (13, 4), (14, 4)]\<rparr>])"
proof -
  have h: "unmet_supply (start env0) = [] \<or> unmet_demand (start env0) = []"
    by (simp add: start_def Let_def)
  have v: "map (\<lambda>s. (unmet_supply s, unmet_demand s))
     (loop_states env0 (start env0)
        [quiet\<lparr>connections := [(10, 3), (11, 3)]\<rparr>,
         quiet\<lparr>connections := [(12, 4), (13, 4), (14, 4)]\<rparr>]) =
     [([11, 10], []), ([], [14])]"
    by code_simp
  have a: "list_all (\<lambda>s. length (unmet_supply s) * length (unmet_demand s) = 0)
     (loop_states env0 (start env0)
        [quiet\<lparr>connections := [(10, 3), (11, 3)]\<rparr>,
         quiet\<lparr>connections := [(12, 4), (13, 4), (14, 4)]\<rparr>])"
    unfolding list_all_iff by (rule unmet_never_both[OF h])
  show ?thesis by (intro conjI) (rule h, rule v, rule a)
qed

subsection \<open>C2: the two peer tables mirror each other\<close>

text \<open>
  C2. From a state that satisfies the invariant of the tables (the state the loop starts
  in does), and as long as the multiplexer reports fresh descriptors, at the end of every
  iteration: if \<open>supply_map[s] = d\<close> and \<open>d\<close> is not \<open>NO_DESCRIPTOR\<close> then
  \<open>demand_map[d] = s\<close>, and the same with the two tables exchanged. So pairing has written
  both directions, and after one side is torn down the entry of the other holds
  \<open>NO_DESCRIPTOR\<close> and no stale peer.
\<close>

theorem peers_stay_symmetric:
  assumes "engine_inv env st" and "fresh_run env st evs"
  shows "\<forall>s' \<in> set (loop_states env st evs).
           (\<forall>s d. map_of (supply_map s') s = Some d \<and> d \<noteq> NO_DESCRIPTOR env
              \<longrightarrow> map_of (demand_map s') d = Some s) \<and>
           (\<forall>d s. map_of (demand_map s') d = Some s \<and> s \<noteq> NO_DESCRIPTOR env
              \<longrightarrow> map_of (supply_map s') s = Some d)"
  using loop_inv[OF assms] unfolding engine_inv_def peers_symmetric_def by blast

theorem peers_stay_symmetric_witness:
  "engine_inv env0 (start env0) \<and> fresh_run env0 (start env0) example_run \<and>
   map (\<lambda>s. (supply_map s, demand_map s)) (loop_states env0 (start env0) example_run) =
     [([], []),
      ([(11, 12), (10, 13)], [(12, 11), (13, 10)]),
      ([(11, -1), (10, 13)], [(13, 10)]),
      ([(10, 14)], [(13, -1), (14, 10)])] \<and>
   list_all (\<lambda>s'. (\<forall>s d. map_of (supply_map s') s = Some d \<and> d \<noteq> NO_DESCRIPTOR env0
              \<longrightarrow> map_of (demand_map s') d = Some s) \<and>
           (\<forall>d s. map_of (demand_map s') d = Some s \<and> s \<noteq> NO_DESCRIPTOR env0
              \<longrightarrow> map_of (supply_map s') s = Some d))
     (loop_states env0 (start env0) example_run)"
proof -
  have i: "engine_inv env0 (start env0)" by (rule inv0)
  have f: "fresh_run env0 (start env0) example_run" by code_simp
  have m: "map (\<lambda>s. (supply_map s, demand_map s)) (loop_states env0 (start env0) example_run) =
     [([], []),
      ([(11, 12), (10, 13)], [(12, 11), (13, 10)]),
      ([(11, -1), (10, 13)], [(13, 10)]),
      ([(10, 14)], [(13, -1), (14, 10)])]" by code_simp
  show ?thesis
    using i f m peers_stay_symmetric[OF i f] unfolding list_all_iff by blast
qed

subsection \<open>C8: frozen in the multiplexer iff waiting unmatched\<close>

text \<open>
  C8. With the frozen set of the multiplexer as the spec describes it (\<open>frozen\<close>): from a
  state that satisfies the invariant of the tables and in which the frozen descriptors
  are those of \<open>unmet_supply\<close> and \<open>unmet_demand\<close> (the state the loop starts in), and as
  long as the multiplexer reports fresh descriptors, at the end of every iteration a
  descriptor is frozen if and only if it is in \<open>unmet_supply\<close> or \<open>unmet_demand\<close>. The loop
  calls \<open>freeze\<close> where it inserts into one of the two sets and \<open>unfreeze\<close> where it
  takes the head of one for pairing; a descriptor erased from them at its own
  disconnection is closed.
\<close>

theorem frozen_iff_unmet:
  assumes "engine_inv env st" and "frozen st = set (unmet_supply st) \<union> set (unmet_demand st)"
    and "fresh_run env st evs"
  shows "\<forall>s \<in> set (loop_states env st evs).
           frozen s = set (unmet_supply s) \<union> set (unmet_demand s)"
  using loop_frozen[of env st evs] assms unfolding unmet_def by simp

theorem frozen_iff_unmet_witness:
  "engine_inv env0 (start env0) \<and>
   frozen (start env0) = set (unmet_supply (start env0)) \<union> set (unmet_demand (start env0)) \<and>
   fresh_run env0 (start env0) example_run \<and>
   map frozen (loop_states env0 (start env0) example_run) = [{10, 11}, {14}, {14}, {}] \<and>
   list_all (\<lambda>s. frozen s = set (unmet_supply s) \<union> set (unmet_demand s))
     (loop_states env0 (start env0) example_run)"
proof -
  have i: "engine_inv env0 (start env0)" by (rule inv0)
  have z: "frozen (start env0) = set (unmet_supply (start env0)) \<union> set (unmet_demand (start env0))"
    by (simp add: start_def frozen_def Let_def)
  have f: "fresh_run env0 (start env0) example_run" by code_simp
  have m: "map frozen (loop_states env0 (start env0) example_run) = [{10, 11}, {14}, {14}, {}]"
    by code_simp
  show ?thesis
    using i z f m frozen_iff_unmet[OF i z f] unfolding list_all_iff by blast
qed

subsection \<open>C1: what happens once \<^verbatim>\<open>terminated\<close> is set\<close>

text \<open>
  C1, as stated, fails: the body ends its shutdown branch with \<^verbatim>\<open>continue\<close>, which in a
  \<^verbatim>\<open>do ... while\<close> jumps to the test \<^verbatim>\<open>!terminated\<close>, so the loop is left at once. In the
  first run below a supply connection 10 is queued, then SIGTERM arrives while the
  disconnection of 10 is pending: the loop returns after the three \<^verbatim>\<open>disconnect\<close> calls,
  without a call of \<^verbatim>\<open>next_disconnection\<close>, with 10 still in its tables and with the
  next iteration's input untouched. In the second run \<^verbatim>\<open>serve\<close> fails: the loop returns
  at the end of that iteration and never calls \<^verbatim>\<open>disconnect\<close> on a listener.
\<close>

theorem termination_drains_counterexample:
  "run_loop env0 (start env0) [ev_connect, ev_term, ev_after] =
     Some (\<lparr>terminated = True, status = 0, alarmed = False, new_demand = 0,
             timestamp_map = [(10, 100)], supply_map = [], demand_map = [],
             unmet_supply = [10], unmet_demand = [], drivers = [],
             calls = [Log Listening, Serve True, Next_disconnection (- 1),
                      Next_connection 10, Log (New_connection 10), Freeze 10,
                      Next_connection (- 1), Next_incoming (- 1),
                      Log (Caught_signal SIGTERM), Disconnect 4, Disconnect 3, Disconnect 5]\<rparr>,
           [ev_after]) \<and>
   run_loop env0 (start env0) [ev_connect, ev_fail, ev_after] =
     Some (\<lparr>terminated = True, status = 1, alarmed = False, new_demand = 0,
             timestamp_map = [], supply_map = [], demand_map = [],
             unmet_supply = [], unmet_demand = [], drivers = [],
             calls = [Log Listening, Serve True, Next_disconnection (- 1),
                      Next_connection 10, Log (New_connection 10), Freeze 10,
                      Next_connection (- 1), Next_incoming (- 1), Serve False,
                      Log Serve_error, Next_disconnection 10, Log (Disconnected 10),
                      Next_disconnection (- 1), Next_connection (- 1), Next_incoming (- 1)]\<rparr>,
           [ev_after])"
  by code_simp

text \<open>
  C1, amended. If \<^verbatim>\<open>terminated\<close> holds after the signal intake of an iteration (it was set
  before, or SIGINT, SIGTERM or SIGQUIT is among the signals), the iteration calls
  \<^verbatim>\<open>disconnect\<close> on the demand, the supply and the driver listener, in this order, makes
  no other call, leaves the tables and \<open>timestamp_map\<close> as they are, and the loop is left
  at the end of this same iteration. If \<^verbatim>\<open>terminated\<close> is not set that way, no alarm was
  taken in and \<^verbatim>\<open>serve\<close> fails, the rest of the body runs on the state with the failure
  recorded, and the loop is left at the end of this iteration. The loop is left only
  with \<^verbatim>\<open>terminated\<close> set.
\<close>

theorem termination_leaves_loop:
  "(terminated st \<or> list_ex deadly (signals ev) \<longrightarrow>
      calls (iteration env st ev) =
        calls (intake st ev) @ [Disconnect (demand_descriptor env), Disconnect (supply_descriptor env),
                                Disconnect (driver_descriptor env)] \<and>
      tables (iteration env st ev) = tables st \<and>
      timestamp_map (iteration env st ev) = timestamp_map st \<and>
      run_loop env st (ev # evs) = Some (iteration env st ev, evs)) \<and>
   (\<not> terminated st \<and> \<not> list_ex deadly (signals ev) \<and> SIGALRM \<notin> set (signals ev) \<and> \<not> serve_result ev \<longrightarrow>
      iteration env st ev =
        rest_of_body env ev
          ((log Serve_error (call (Serve False) (intake st ev)))\<lparr>status := EXIT_FAILURE, terminated := True\<rparr>) \<and>
      status (iteration env st ev) = EXIT_FAILURE \<and>
      run_loop env st (ev # evs) = Some (iteration env st ev, evs)) \<and>
   (run_loop env st (ev # evs) = Some (s, rest) \<longrightarrow> terminated s)"
proof (intro conjI impI)
  assume a: "terminated st \<or> list_ex deadly (signals ev)"
  then have t: "terminated (intake st ev)" by (simp add: intake_terminated)
  then have i: "iteration env st ev = shut_listeners env (intake st ev)" by (simp add: iteration_intake)
  show "calls (iteration env st ev) =
        calls (intake st ev) @ [Disconnect (demand_descriptor env), Disconnect (supply_descriptor env),
                                Disconnect (driver_descriptor env)]"
    unfolding i by (simp add: shut_listeners_def)
  show "tables (iteration env st ev) = tables st"
    unfolding i by (simp add: intake_def tables_def[of "st\<lparr>alarmed := False\<rparr>"] tables_def[of st])
  show "timestamp_map (iteration env st ev) = timestamp_map st"
    unfolding i by (simp add: shut_listeners_def intake_def)
  have "terminated (iteration env st ev)" unfolding i using t by (simp add: shut_listeners_def)
  then show "run_loop env st (ev # evs) = Some (iteration env st ev, evs)" by (simp add: Let_def)
next
  assume a: "\<not> terminated st \<and> \<not> list_ex deadly (signals ev) \<and> SIGALRM \<notin> set (signals ev) \<and> \<not> serve_result ev"
  let ?st2 = "(log Serve_error (call (Serve False) (intake st ev)))\<lparr>status := EXIT_FAILURE, terminated := True\<rparr>"
  have t: "\<not> terminated (intake st ev)" using a by (simp add: intake_terminated)
  have al: "\<not> alarmed (intake st ev)" using a by (simp add: intake_alarmed)
  have p: "poll (serve_result ev) (intake st ev) = ?st2" using a al by (simp add: poll_def Let_def)
  show i: "iteration env st ev = rest_of_body env ev ?st2" using t p by (simp add: iteration_intake)
  have "flags (iteration env st ev) = flags ?st2" unfolding i by simp
  then have f: "terminated (iteration env st ev)" "status (iteration env st ev) = EXIT_FAILURE"
    by (simp_all add: flags_def)
  show "status (iteration env st ev) = EXIT_FAILURE" by (rule f(2))
  show "run_loop env st (ev # evs) = Some (iteration env st ev, evs)" using f(1) by (simp add: Let_def)
next
  assume "run_loop env st (ev # evs) = Some (s, rest)"
  then show "terminated s" by (rule run_loop_terminated)
qed

theorem termination_leaves_loop_witness:
  "(terminated (iteration env0 (start env0) ev_connect) \<or> list_ex deadly (signals ev_term)) \<and>
   calls (iteration env0 (iteration env0 (start env0) ev_connect) ev_term) =
     calls (intake (iteration env0 (start env0) ev_connect) ev_term) @ [Disconnect 4, Disconnect 3, Disconnect 5] \<and>
   run_loop env0 (iteration env0 (start env0) ev_connect) [ev_term, ev_after] =
     Some (iteration env0 (iteration env0 (start env0) ev_connect) ev_term, [ev_after]) \<and>
   (\<not> terminated (iteration env0 (start env0) ev_connect) \<and> \<not> list_ex deadly (signals ev_fail) \<and>
      SIGALRM \<notin> set (signals ev_fail) \<and> \<not> serve_result ev_fail) \<and>
   status (iteration env0 (iteration env0 (start env0) ev_connect) ev_fail) = EXIT_FAILURE \<and>
   run_loop env0 (iteration env0 (start env0) ev_connect) [ev_fail, ev_after] =
     Some (iteration env0 (iteration env0 (start env0) ev_connect) ev_fail, [ev_after]) \<and>
   terminated (iteration env0 (iteration env0 (start env0) ev_connect) ev_fail)"
proof -
  let ?st = "iteration env0 (start env0) ev_connect"
  have a: "terminated ?st \<or> list_ex deadly (signals ev_term)"
    by (simp add: ev_term_def quiet_def deadly_def)
  have n: "\<not> terminated ?st" by code_simp
  have b: "\<not> terminated ?st \<and> \<not> list_ex deadly (signals ev_fail) \<and>
      SIGALRM \<notin> set (signals ev_fail) \<and> \<not> serve_result ev_fail"
    using n by (simp add: ev_fail_def quiet_def)
  have e: "demand_descriptor env0 = 4" "supply_descriptor env0 = 3" "driver_descriptor env0 = 5"
    by (simp_all add: env0_def)
  show ?thesis
    using a b e
      termination_leaves_loop[of ?st ev_term env0 "[ev_after]"
        "iteration env0 ?st ev_term" "[ev_after]"]
      termination_leaves_loop[of ?st ev_fail env0 "[ev_after]"
        "iteration env0 ?st ev_fail" "[ev_after]"]
    unfolding e by blast
qed

subsection \<open>C4: the delta of new demand reaches the drivers\<close>

text \<open>
  C4 does not hold of the code. A driver 20 connects in one iteration, in which nothing
  makes the publication pass run: it is sent the count 0 and keeps the timestamp
  \<open>timestamp + 1\<close>. In the next iteration, within the same second, a demand connection
  21 is queued (\<open>new_demand = 1\<close>): the pass takes the driver for a brand new one
  (lines 234-239), resets its timestamp and sends it nothing, so the only line the
  driver has been sent is the 0.
\<close>

theorem stale_sentinel_hides_new_demand:
  "map (\<lambda>s. (drivers s, unmet_demand s, new_demand s, map_of (timestamp_map s) 20, written 20 (calls s)))
     (loop_states env0 (start env0)
        [quiet\<lparr>connections := [(20, 5)]\<rparr>, quiet\<lparr>connections := [(21, 4)]\<rparr>]) =
   [([20], [], 0, Some 101, [''0'' @ [CHR 0x0A]]),
    ([20], [21], 1, Some 100, [''0'' @ [CHR 0x0A]])]"
  by code_simp

subsection \<open>C5: a new driver is told the count, once\<close>

text \<open>
  C5. In an iteration that runs the body, let \<open>d\<close> arrive on the driver listener (which
  is enabled and is neither the supply nor the demand listener), after the connections
  \<open>cs1\<close> of the same batch, with fresh descriptors in the batch. Then, with \<open>at\<close> the state
  when \<open>d\<close> is taken from the queue: the step inserts \<open>d\<close> into \<open>drivers\<close>, calls
  \<^verbatim>\<open>writef\<close> with the decimal line of the size \<open>unmet_demand\<close> has at that moment, and
  leaves \<open>timestamp + 1\<close> in \<open>timestamp_map[d]\<close>. At the end of the iteration \<open>d\<close> is a
  driver, that line is the only text the iteration has written to \<open>d\<close>, and if the
  publication pass ran (\<open>new_demand \<noteq> 0\<close> or \<open>alarmed\<close>) the entry of \<open>d\<close> is \<open>timestamp\<close>;
  if it did not run the entry is still \<open>timestamp + 1\<close>, unless bytes from \<open>d\<close> made it
  \<open>timestamp\<close>.
\<close>

theorem new_driver_is_told_once:
  assumes run: "\<not> terminated (intake st ev)"
    and conn: "connections ev = cs1 @ (d, driver_descriptor env) # cs2"
    and listener: "driver_descriptor env \<noteq> NO_DESCRIPTOR env"
      "driver_descriptor env \<noteq> supply_descriptor env" "driver_descriptor env \<noteq> demand_descriptor env"
    and reached: "NO_DESCRIPTOR env \<notin> fst ` set cs1" "d \<noteq> NO_DESCRIPTOR env"
    and fresh: "fresh_connections env st ev"
    and dist: "distinct (drivers st)"
  shows "(let at = connect_all env (now ev) (before_connections env st ev) cs1;
              st1 = on_connection env (now ev) (call (Next_connection d) at) (d, driver_descriptor env);
              st' = iteration env st ev
          in drivers st1 = List.insert d (drivers at) \<and>
             calls st1 = calls at @ [Next_connection d, Log (New_connection d),
                                     Writef d (lu_line (length (unmet_demand at)))] \<and>
             map_of (timestamp_map st1) d = Some (now ev + 1) \<and>
             d \<in> set (drivers st') \<and>
             written d (calls st') = written d (calls st) @ [lu_line (length (unmet_demand at))] \<and>
             (if new_demand st' \<noteq> 0 \<or> alarmed st'
              then map_of (timestamp_map st') d = Some (now ev)
              else map_of (timestamp_map st') d = Some (now ev + 1) \<or>
                   map_of (timestamp_map st') d = Some (now ev)))"
proof -
  let ?t = "now ev"
  let ?c = "(d, driver_descriptor env)"
  let ?st4 = "before_connections env st ev"
  let ?at = "connect_all env ?t ?st4 cs1"
  let ?st1 = "on_connection env ?t (call (Next_connection d) ?at) ?c"
  let ?st5 = "drain_connections env ?t ?st1 cs2"
  let ?st6 = "publish env ?t ?st5"
  let ?st7 = "drain_incoming env ?t ?st6 (incoming ev)"
  let ?st' = "iteration env st ev"
  have nt: "\<not> terminated (foldl on_signal (st\<lparr>alarmed := False\<rparr>) (signals ev))"
    using run by (simp add: intake_def)
  \<comment> \<open>freshness of \<open>d\<close>\<close>
  have dd: "distinct (map fst (cs1 @ ?c # cs2))" and nt4: "d \<notin> tracked ?st4"
    using fresh unfolding fresh_connections_def conn by simp_all
  have d1: "d \<notin> fst ` set cs1" and d2: "d \<notin> fst ` set cs2" using dd by auto
  have u4: "d \<notin> unmet ?st4" using nt4 by (simp add: tracked_def unmet_def)
  \<comment> \<open>up to the connection of \<open>d\<close>\<close>
  have at: "written d (calls ?at) = written d (calls st)" "d \<notin> unmet ?at"
    using connect_all_other[OF d1 u4, of env ?t] by (simp_all add: written_before_connections)
  have dat: "distinct (drivers ?at)"
    by (rule connect_all_distinct_drivers[OF distinct_drivers_before_connections[OF dist]])
  have st1: "?st1 = (call (Next_connection d) ?at)
      \<lparr>drivers := List.insert d (drivers ?at),
        timestamp_map := AList.update d (?t + 1) (AList.update d ?t (timestamp_map ?at)),
        calls := calls ?at @ [Next_connection d, Log (New_connection d),
                              Writef d (lu_line (length (unmet_demand ?at)))]\<rparr>"
    using on_connection_driver[of ?c env ?t "call (Next_connection d) ?at"] listener by simp
  have a1: "drivers ?st1 = List.insert d (drivers ?at)"
    and a2: "calls ?st1 = calls ?at @ [Next_connection d, Log (New_connection d),
                                     Writef d (lu_line (length (unmet_demand ?at)))]"
    and a3: "map_of (timestamp_map ?st1) d = Some (?t + 1)"
    and a4: "unmet ?st1 = unmet ?at"
    by (simp_all add: st1 update_conv' unmet_def)
  have w1: "written d (calls ?st1) = written d (calls st) @ [lu_line (length (unmet_demand ?at))]"
    using at(1) by (simp add: a2)
  have u1: "d \<notin> unmet ?st1" using at(2) a4 by simp
  have dr1: "d \<in> set (drivers ?st1)" "distinct (drivers ?st1)" using dat by (simp_all add: a1)
  \<comment> \<open>the rest of the batch\<close>
  have split: "drain_connections env ?t ?st4 (connections ev) = ?st5"
    unfolding conn using drain_connections_append[OF reached(1), of ?t ?st4 "?c # cs2"] reached(2)
    by simp
  have w5: "written d (calls ?st5) = written d (calls st) @ [lu_line (length (unmet_demand ?at))]"
    and t5: "map_of (timestamp_map ?st5) d = Some (?t + 1)"
    using drain_connections_other[OF d2 u1, of env ?t] w1 a3 by simp_all
  have dr5: "d \<in> set (drivers ?st5)" "distinct (drivers ?st5)"
    using drain_connections_drivers[of ?st1 env ?t cs2] dr1 by auto
  \<comment> \<open>the publication pass\<close>
  have w6: "written d (calls ?st6) = written d (calls st) @ [lu_line (length (unmet_demand ?at))]"
    using publish_ahead(1)[OF dr5 t5, of ?t env] w5 by simp
  have t6: "new_demand ?st5 \<noteq> 0 \<or> alarmed ?st5 \<Longrightarrow> map_of (timestamp_map ?st6) d = Some ?t"
    using publish_ahead(2)[OF dr5 t5, of ?t env] by simp
  have t6': "\<not> (new_demand ?st5 \<noteq> 0 \<or> alarmed ?st5) \<Longrightarrow> map_of (timestamp_map ?st6) d = Some (?t + 1)"
    using t5 by (simp add: publish_def)
  \<comment> \<open>the end of the iteration\<close>
  have it: "?st' = idle_reap env ?t ?st7"
    unfolding iteration_before_connections[OF nt] split ..
  have c': "counters ?st' = counters ?st5" unfolding it by simp
  then have nd: "(new_demand ?st' \<noteq> 0 \<or> alarmed ?st') = (new_demand ?st5 \<noteq> 0 \<or> alarmed ?st5)"
    by (simp add: counters_def)
  have "tables ?st' = tables ?st5" unfolding it by simp
  then have b4: "d \<in> set (drivers ?st')" using dr5(1) tables_eqD(5) by metis
  have b5: "written d (calls ?st') = written d (calls st) @ [lu_line (length (unmet_demand ?at))]"
    unfolding it using w6 by simp
  have tm: "timestamp_map ?st' = timestamp_map ?st7" unfolding it by simp
  have b6: "if new_demand ?st' \<noteq> 0 \<or> alarmed ?st'
      then map_of (timestamp_map ?st') d = Some ?t
      else map_of (timestamp_map ?st') d = Some (?t + 1) \<or> map_of (timestamp_map ?st') d = Some ?t"
  proof (cases "new_demand ?st5 \<noteq> 0 \<or> alarmed ?st5")
    case True
    then show ?thesis
      using drain_incoming_timestamp_keeps[OF t6[OF True], of env "incoming ev"] nd tm by simp
  next
    case False
    then show ?thesis
      using drain_incoming_timestamp[of env ?t ?st6 "incoming ev" d] t6'[OF False] nd tm by auto
  qed
  show ?thesis unfolding Let_def using a1 a2 a3 b4 b5 b6 by blast
qed

theorem new_driver_is_told_once_witness:
  "\<not> terminated (intake (start env0) ev_driver) \<and>
   connections ev_driver = [(21, 4)] @ (20, driver_descriptor env0) # [(22, 4)] \<and>
   driver_descriptor env0 \<noteq> NO_DESCRIPTOR env0 \<and>
   driver_descriptor env0 \<noteq> supply_descriptor env0 \<and>
   driver_descriptor env0 \<noteq> demand_descriptor env0 \<and>
   NO_DESCRIPTOR env0 \<notin> fst ` set [(21, 4)] \<and> 20 \<noteq> NO_DESCRIPTOR env0 \<and>
   fresh_connections env0 (start env0) ev_driver \<and> distinct (drivers (start env0)) \<and>
   (let at = connect_all env0 (now ev_driver) (before_connections env0 (start env0) ev_driver) [(21, 4)];
        st1 = on_connection env0 (now ev_driver) (call (Next_connection 20) at) (20, driver_descriptor env0);
        st' = iteration env0 (start env0) ev_driver
    in drivers st1 = List.insert 20 (drivers at) \<and>
       calls st1 = calls at @ [Next_connection 20, Log (New_connection 20),
                               Writef 20 (lu_line (length (unmet_demand at)))] \<and>
       map_of (timestamp_map st1) 20 = Some (now ev_driver + 1) \<and>
       20 \<in> set (drivers st') \<and>
       written 20 (calls st') = written 20 (calls (start env0)) @ [lu_line (length (unmet_demand at))] \<and>
       (if new_demand st' \<noteq> 0 \<or> alarmed st'
        then map_of (timestamp_map st') 20 = Some (now ev_driver)
        else map_of (timestamp_map st') 20 = Some (now ev_driver + 1) \<or>
             map_of (timestamp_map st') 20 = Some (now ev_driver))) \<and>
   written 20 (calls (iteration env0 (start env0) ev_driver)) = [''1'' @ [CHR 0x0A]] \<and>
   new_demand (iteration env0 (start env0) ev_driver) = 2 \<and>
   map_of (timestamp_map (iteration env0 (start env0) ev_driver)) 20 = Some 100"
proof -
  have h1: "\<not> terminated (intake (start env0) ev_driver)" by code_simp
  have h2: "connections ev_driver = [(21, 4)] @ (20, driver_descriptor env0) # [(22, 4)]"
    by (simp add: ev_driver_def quiet_def env0_def)
  have h3: "driver_descriptor env0 \<noteq> NO_DESCRIPTOR env0"
    "driver_descriptor env0 \<noteq> supply_descriptor env0" "driver_descriptor env0 \<noteq> demand_descriptor env0"
    by (simp_all add: env0_def)
  have h4: "NO_DESCRIPTOR env0 \<notin> fst ` set [(21, 4)]" "20 \<noteq> NO_DESCRIPTOR env0"
    by (simp_all add: env0_def)
  have h5: "fresh_connections env0 (start env0) ev_driver" by code_simp
  have h6: "distinct (drivers (start env0))" by (simp add: start_def Let_def)
  have v: "written 20 (calls (iteration env0 (start env0) ev_driver)) = [''1'' @ [CHR 0x0A]]"
    "new_demand (iteration env0 (start env0) ev_driver) = 2"
    "map_of (timestamp_map (iteration env0 (start env0) ev_driver)) 20 = Some 100"
    by code_simp+
  show ?thesis
    using h1 h2 h3 h4 h5 h6 v new_driver_is_told_once[OF h1 h2 h3 h4 h5 h6]
    by blast
qed

subsection \<open>C10: incoming bytes refresh the timestamp, of a driver too\<close>

text \<open>
  C10. In an iteration that runs the body and whose incoming queue is read to its end:
  every descriptor with an incoming event has the current timestamp in \<open>timestamp_map\<close>
  at the end of the iteration, whatever it held before (the value \<open>timestamp + 1\<close> of a
  new driver included). For a driver the incoming step only takes the buffer
  (\<^verbatim>\<open>swap_incoming\<close>) and sets the timestamp: nothing is forwarded. And a driver that had
  an incoming event is, in a following iteration that is not earlier in time, in which
  it neither disconnects nor connects anew, sent the new demand of that iteration when
  there is some.
\<close>

theorem incoming_bytes_refresh_timestamp:
  assumes run: "\<not> terminated (intake st ev)"
    and reached: "NO_DESCRIPTOR env \<notin> fst ` set (incoming ev)"
  shows "(let st1 = iteration env st ev in
           (\<forall>i \<in> set (incoming ev). map_of (timestamp_map st1) (fst i) = Some (now ev)) \<and>
           (\<forall>s d buffer. d \<in> set (drivers s) \<longrightarrow>
              on_incoming env (now ev) s (d, buffer) =
                s\<lparr>timestamp_map := AList.update d (now ev) (timestamp_map s),
                  calls := calls s @ [Swap_incoming d]\<rparr>) \<and>
           (\<forall>d ev'. d \<in> fst ` set (incoming ev) \<and> d \<in> set (drivers st1) \<and> distinct (drivers st1) \<and>
              \<not> terminated (intake st1 ev') \<and> now ev \<le> now ev' \<and>
              d \<notin> set (disconnections ev') \<and> d \<notin> fst ` set (connections ev') \<and>
              new_demand (iteration env st1 ev') \<noteq> 0 \<longrightarrow>
              written d (calls (iteration env st1 ev')) =
                written d (calls st1) @ [lu_line (new_demand (iteration env st1 ev'))]))"
proof -
  let ?st1 = "iteration env st ev"
  have nt: "\<not> terminated (foldl on_signal (st\<lparr>alarmed := False\<rparr>) (signals ev))"
    using run by (simp add: intake_def)
  have a: "map_of (timestamp_map ?st1) x = Some (now ev)" if "x \<in> fst ` set (incoming ev)" for x
    unfolding iteration_before_connections[OF nt]
    using drain_incoming_sets_timestamp[OF reached that] by simp
  have b: "on_incoming env (now ev) s (d, buffer) =
      s\<lparr>timestamp_map := AList.update d (now ev) (timestamp_map s), calls := calls s @ [Swap_incoming d]\<rparr>"
    if "d \<in> set (drivers s)" for s d buffer
    using on_incoming_driver[of "(d, buffer)" s env "now ev"] that by simp
  have c: "written d (calls (iteration env ?st1 ev')) =
        written d (calls ?st1) @ [lu_line (new_demand (iteration env ?st1 ev'))]"
    if "d \<in> fst ` set (incoming ev)" "d \<in> set (drivers ?st1)" "distinct (drivers ?st1)"
      "\<not> terminated (intake ?st1 ev')" "now ev \<le> now ev'"
      "d \<notin> set (disconnections ev')" "d \<notin> fst ` set (connections ev')"
      "new_demand (iteration env ?st1 ev') \<noteq> 0" for d ev'
    by (rule driver_gets_delta[OF that(4,2,3) a[OF that(1)] that(5,6,7,8)])
  show ?thesis unfolding Let_def using a b c by blast
qed

theorem incoming_bytes_refresh_timestamp_witness:
  "\<not> terminated (intake (iteration env0 (start env0) (quiet\<lparr>connections := [(20, 5)]\<rparr>)) ev_bytes) \<and>
   NO_DESCRIPTOR env0 \<notin> fst ` set (incoming ev_bytes) \<and>
   map_of (timestamp_map (iteration env0 (start env0) (quiet\<lparr>connections := [(20, 5)]\<rparr>))) 20 = Some 101 \<and>
   map_of (timestamp_map
     (iteration env0 (iteration env0 (start env0) (quiet\<lparr>connections := [(20, 5)]\<rparr>)) ev_bytes)) 20 =
     Some (now ev_bytes) \<and>
   written 20 (calls (iteration env0
      (iteration env0 (iteration env0 (start env0) (quiet\<lparr>connections := [(20, 5)]\<rparr>)) ev_bytes)
      (quiet\<lparr>connections := [(21, 4)]\<rparr>))) =
     written 20 (calls (iteration env0 (iteration env0 (start env0) (quiet\<lparr>connections := [(20, 5)]\<rparr>)) ev_bytes)) @
     [lu_line (new_demand (iteration env0
        (iteration env0 (iteration env0 (start env0) (quiet\<lparr>connections := [(20, 5)]\<rparr>)) ev_bytes)
        (quiet\<lparr>connections := [(21, 4)]\<rparr>)))] \<and>
   written 20 (calls (iteration env0
      (iteration env0 (iteration env0 (start env0) (quiet\<lparr>connections := [(20, 5)]\<rparr>)) ev_bytes)
      (quiet\<lparr>connections := [(21, 4)]\<rparr>))) = [''0'' @ [CHR 0x0A], ''1'' @ [CHR 0x0A]]"
proof -
  let ?st = "iteration env0 (start env0) (quiet\<lparr>connections := [(20, 5)]\<rparr>)"
  let ?st1 = "iteration env0 ?st ev_bytes"
  let ?ev' = "quiet\<lparr>connections := [(21, 4)]\<rparr>"
  have h1: "\<not> terminated (intake ?st ev_bytes)" by code_simp
  have h2: "NO_DESCRIPTOR env0 \<notin> fst ` set (incoming ev_bytes)" by code_simp
  have s: "map_of (timestamp_map ?st) 20 = Some 101" by code_simp
  have i: "(20, [104, 105]) \<in> set (incoming ev_bytes)" by (simp add: ev_bytes_def quiet_def)
  have k: "20 \<in> fst ` set (incoming ev_bytes)" "20 \<in> set (drivers ?st1)" "distinct (drivers ?st1)"
    "\<not> terminated (intake ?st1 ?ev')" "now ev_bytes \<le> now ?ev'"
    "20 \<notin> set (disconnections ?ev')" "20 \<notin> fst ` set (connections ?ev')"
    "new_demand (iteration env0 ?st1 ?ev') \<noteq> 0"
    by code_simp+
  have v: "written 20 (calls (iteration env0 ?st1 ?ev')) = [''0'' @ [CHR 0x0A], ''1'' @ [CHR 0x0A]]"
    by code_simp
  note th = incoming_bytes_refresh_timestamp[OF h1 h2, unfolded Let_def]
  have t': "map_of (timestamp_map ?st1) 20 = Some (now ev_bytes)"
    using bspec[OF th[THEN conjunct1] i] by (simp only: fst_conv)
  have w: "written 20 (calls (iteration env0 ?st1 ?ev')) =
      written 20 (calls ?st1) @ [lu_line (new_demand (iteration env0 ?st1 ?ev'))]"
    by (rule th[THEN conjunct2, THEN conjunct2, THEN spec, THEN spec, THEN mp])
       (intro conjI; rule k)
  show ?thesis
    by (intro conjI; (rule h1 h2 s t' w v))
qed

subsection \<open>C7: the idle reaper\<close>

text \<open>
  C7, as stated, fails in an iteration that takes in SIGALRM together with a termination
  signal. The alarm is consumed, \<open>idle_timeout\<close> is 3 and descriptor 10 has been idle for 3
  seconds, but lines 118-124 end the iteration before the reaper of lines 297-314:
  \<^verbatim>\<open>disconnect\<close> is called on the three listeners only, not on descriptor 10, and
  \<open>timestamp_map\<close> is as it was.
\<close>

theorem idle_reap_skipped_counterexample:
  "signals ev_alarm_term = [SIGALRM, SIGTERM] \<and> now ev_alarm_term = 103 \<and> idle_timeout env0 = 3 \<and>
   alarmed (intake st_reap ev_alarm_term) \<and>
   timestamp_map st_reap = [(10, 100), (11, 103)] \<and>
   disconnects (calls st_reap) = [] \<and>
   disconnects (calls (iteration env0 st_reap ev_alarm_term)) = [4, 3, 5] \<and>
   timestamp_map (iteration env0 st_reap ev_alarm_term) = [(10, 100), (11, 103)]"
  by code_simp

text \<open>
  C7, amended. In an iteration whose signal intake leaves \<open>terminated\<close> unset, the last step
  is the reaper, on the state \<open>s\<close> the incoming drain leaves, and \<open>alarmed\<close> holds there
  exactly when SIGALRM was among the signals of the iteration. The \<^verbatim>\<open>disconnect\<close> calls
  the reaper adds are, when \<open>idle_timeout > 0\<close> and the alarm was taken in, those on
  \<open>timed_out\<close>: exactly the descriptors \<open>d\<close> that have an entry \<open>ts\<close> in \<open>timestamp_map\<close>
  with \<open>timestamp - ts \<ge> idle_timeout\<close>; otherwise the reaper adds none. An entry ahead of
  the timestamp (a negative difference) is never among them. In an iteration whose signal
  intake leaves \<open>terminated\<close> set the reaper does not run, whatever the alarm and the
  timestamps: the \<^verbatim>\<open>disconnect\<close> calls added are those on the demand, supply and driver
  listeners, and \<open>timestamp_map\<close> is unchanged.
\<close>

theorem idle_reap_exactly:
  "(let s = before_reap env st ev; st' = iteration env st ev in
     (\<not> terminated (intake st ev) \<longrightarrow>
        st' = idle_reap env (now ev) s \<and>
        alarmed s = (SIGALRM \<in> set (signals ev)) \<and>
        disconnects (calls st') =
          disconnects (calls s) @
          (if idle_timeout env > 0 \<and> SIGALRM \<in> set (signals ev) then timed_out env (now ev) s else []) \<and>
        set (timed_out env (now ev) s) =
          {d. \<exists>ts. (d, ts) \<in> set (timestamp_map s) \<and> now ev - ts \<ge> int (idle_timeout env)} \<and>
        (\<forall>d ts. map_of (timestamp_map s) d = Some ts \<and> distinct (map fst (timestamp_map s)) \<and>
                now ev < ts \<longrightarrow> d \<notin> set (timed_out env (now ev) s))) \<and>
     (terminated (intake st ev) \<longrightarrow>
        st' = shut_listeners env (intake st ev) \<and>
        disconnects (calls st') =
          disconnects (calls st) @ [demand_descriptor env, supply_descriptor env, driver_descriptor env] \<and>
        timestamp_map st' = timestamp_map st))"
proof -
  let ?s = "before_reap env st ev"
  have run: "iteration env st ev = idle_reap env (now ev) ?s \<and>
        alarmed ?s = (SIGALRM \<in> set (signals ev)) \<and>
        disconnects (calls (iteration env st ev)) =
          disconnects (calls ?s) @
          (if idle_timeout env > 0 \<and> SIGALRM \<in> set (signals ev) then timed_out env (now ev) ?s else []) \<and>
        set (timed_out env (now ev) ?s) =
          {d. \<exists>ts. (d, ts) \<in> set (timestamp_map ?s) \<and> now ev - ts \<ge> int (idle_timeout env)} \<and>
        (\<forall>d ts. map_of (timestamp_map ?s) d = Some ts \<and> distinct (map fst (timestamp_map ?s)) \<and>
                now ev < ts \<longrightarrow> d \<notin> set (timed_out env (now ev) ?s))"
    if n: "\<not> terminated (intake st ev)"
  proof -
    have a: "iteration env st ev = idle_reap env (now ev) ?s"
      by (rule iteration_before_reap[OF n])
    have b: "alarmed ?s = (SIGALRM \<in> set (signals ev))" by (rule alarmed_before_reap)
    have c: "disconnects (calls (iteration env st ev)) =
        disconnects (calls ?s) @
        (if idle_timeout env > 0 \<and> SIGALRM \<in> set (signals ev) then timed_out env (now ev) ?s else [])"
      unfolding a idle_reap_disconnects b ..
    have d: "\<forall>d ts. map_of (timestamp_map ?s) d = Some ts \<and> distinct (map fst (timestamp_map ?s)) \<and>
                    now ev < ts \<longrightarrow> d \<notin> set (timed_out env (now ev) ?s)"
      using timed_out_ahead by blast
    show ?thesis
      by (intro conjI) (rule a, rule b, rule c, rule timed_out_set, rule d)
  qed
  have shut: "iteration env st ev = shut_listeners env (intake st ev) \<and>
        disconnects (calls (iteration env st ev)) =
          disconnects (calls st) @ [demand_descriptor env, supply_descriptor env, driver_descriptor env] \<and>
        timestamp_map (iteration env st ev) = timestamp_map st"
    if t: "terminated (intake st ev)"
    by (intro conjI) (rule iteration_shut[OF t])+
  show ?thesis unfolding Let_def
    by (rule conjI; rule impI) (erule run, erule shut)
qed

theorem idle_reap_exactly_witness:
  "\<not> terminated (intake st_reap ev_alarm) \<and>
   timestamp_map (before_reap env0 st_reap ev_alarm) = [(10, 100), (11, 103)] \<and>
   disconnects (calls (iteration env0 st_reap ev_alarm)) =
     disconnects (calls (before_reap env0 st_reap ev_alarm)) @
     (if idle_timeout env0 > 0 \<and> SIGALRM \<in> set (signals ev_alarm)
      then timed_out env0 (now ev_alarm) (before_reap env0 st_reap ev_alarm) else []) \<and>
   timed_out env0 (now ev_alarm) (before_reap env0 st_reap ev_alarm) = [10] \<and>
   \<not> terminated (intake st_reap ev_alarm_back) \<and>
   disconnects (calls (iteration env0 st_reap ev_alarm_back)) =
     disconnects (calls (before_reap env0 st_reap ev_alarm_back)) @
     (if idle_timeout env0 > 0 \<and> SIGALRM \<in> set (signals ev_alarm_back)
      then timed_out env0 (now ev_alarm_back) (before_reap env0 st_reap ev_alarm_back) else []) \<and>
   timed_out env0 (now ev_alarm_back) (before_reap env0 st_reap ev_alarm_back) = [] \<and>
   terminated (intake st_reap ev_alarm_term) \<and>
   disconnects (calls (iteration env0 st_reap ev_alarm_term)) =
     disconnects (calls st_reap) @ [demand_descriptor env0, supply_descriptor env0, driver_descriptor env0] \<and>
   timestamp_map (iteration env0 st_reap ev_alarm_term) = timestamp_map st_reap"
proof -
  have h: "\<not> terminated (intake st_reap ev_alarm)" by code_simp
  have h': "\<not> terminated (intake st_reap ev_alarm_back)" by code_simp
  have h'': "terminated (intake st_reap ev_alarm_term)" by code_simp
  have m: "timestamp_map (before_reap env0 st_reap ev_alarm) = [(10, 100), (11, 103)]" by code_simp
  have v: "timed_out env0 (now ev_alarm) (before_reap env0 st_reap ev_alarm) = [10]" by code_simp
  have v': "timed_out env0 (now ev_alarm_back) (before_reap env0 st_reap ev_alarm_back) = []" by code_simp
  note th = idle_reap_exactly[of env0 st_reap ev_alarm, unfolded Let_def, THEN conjunct1, THEN mp, OF h]
  note th' = idle_reap_exactly[of env0 st_reap ev_alarm_back, unfolded Let_def, THEN conjunct1, THEN mp, OF h']
  note th'' = idle_reap_exactly[of env0 st_reap ev_alarm_term, unfolded Let_def, THEN conjunct2, THEN mp, OF h'']
  show ?thesis
    by (intro conjI)
       (rule h, rule m, rule th[THEN conjunct2, THEN conjunct2, THEN conjunct1], rule v,
        rule h', rule th'[THEN conjunct2, THEN conjunct2, THEN conjunct1], rule v',
        rule h'', rule th''[THEN conjunct2, THEN conjunct1], rule th''[THEN conjunct2, THEN conjunct2])
qed

subsection \<open>C6: the disconnection of a paired descriptor\<close>




subsection \<open>C9: a connection from none of the three listeners\<close>

text \<open>
  C9. When the listener of a new connection is neither the supply listener, nor the
  demand listener, nor an enabled driver listener, the step sets the timestamp of the
  descriptor, logs the new connection and the forbidden condition of line 229, and
  does nothing else: the five tables are as before and no call is made on the
  multiplexer. From then on, in every iteration: the entry in \<open>timestamp_map\<close> stays unless
  the disconnection of the descriptor is reported; and unless the descriptor comes
  again from the queue of new connections, \<^verbatim>\<open>freeze\<close> is not called on it and it enters
  no table if it was in none.
\<close>

theorem stray_connection_only_timestamped:
  assumes "snd c \<noteq> supply_descriptor env" "snd c \<noteq> demand_descriptor env"
    "\<not> (snd c = driver_descriptor env \<and> driver_descriptor env \<noteq> NO_DESCRIPTOR env)"
  shows "on_connection env t st c =
           st\<lparr>timestamp_map := AList.update (fst c) t (timestamp_map st),
              calls := calls st @ [Log (New_connection (fst c)), Log (Forbidden_condition 229)]\<rparr> \<and>
         (\<forall>s ev. fst c \<notin> set (disconnections ev) \<and> map_of (timestamp_map s) (fst c) \<noteq> None \<longrightarrow>
                 map_of (timestamp_map (iteration env s ev)) (fst c) \<noteq> None) \<and>
         (\<forall>s ev. fst c \<notin> fst ` set (connections ev) \<longrightarrow>
                 extends (\<lambda>x. x \<noteq> Freeze (fst c)) s (iteration env s ev) \<and>
                 (fst c \<notin> tracked s \<longrightarrow> fst c \<notin> tracked (iteration env s ev)))"
proof (intro conjI allI impI)
  show "on_connection env t st c =
           st\<lparr>timestamp_map := AList.update (fst c) t (timestamp_map st),
              calls := calls st @ [Log (New_connection (fst c)), Log (Forbidden_condition 229)]\<rparr>"
    by (rule on_connection_forbidden[OF assms])
next
  fix s :: state and ev :: events
  assume "fst c \<notin> set (disconnections ev) \<and> map_of (timestamp_map s) (fst c) \<noteq> None"
  then show "map_of (timestamp_map (iteration env s ev)) (fst c) \<noteq> None"
    using iteration_keeps_timestamp by blast
next
  fix s :: state and ev :: events
  assume "fst c \<notin> fst ` set (connections ev)"
  then show "extends (\<lambda>x. x \<noteq> Freeze (fst c)) s (iteration env s ev)"
    by (rule no_freeze_iteration)
next
  fix s :: state and ev :: events
  assume "fst c \<notin> fst ` set (connections ev)" "fst c \<notin> tracked s"
  then show "fst c \<notin> tracked (iteration env s ev)"
    using tracked_iteration[of env s ev] by blast
qed

theorem stray_connection_only_timestamped_witness:
  "snd stray \<noteq> supply_descriptor env0 \<and> snd stray \<noteq> demand_descriptor env0 \<and>
   \<not> (snd stray = driver_descriptor env0 \<and> driver_descriptor env0 \<noteq> NO_DESCRIPTOR env0) \<and>
   on_connection env0 100 (start env0) stray =
     (start env0)\<lparr>timestamp_map := AList.update (fst stray) 100 (timestamp_map (start env0)),
                   calls := calls (start env0) @
                     [Log (New_connection (fst stray)), Log (Forbidden_condition 229)]\<rparr> \<and>
   connections ev_stray = [stray] \<and>
   timestamp_map (iteration env0 (start env0) ev_stray) = [(30, 100)] \<and>
   map_of (timestamp_map (iteration env0 (iteration env0 (start env0) ev_stray) ev_demand)) (fst stray) \<noteq> None \<and>
   fst stray \<notin> tracked (iteration env0 (iteration env0 (start env0) ev_stray) ev_demand)"
proof -
  let ?s1 = "iteration env0 (start env0) ev_stray"
  have h1: "snd stray \<noteq> supply_descriptor env0" and h2: "snd stray \<noteq> demand_descriptor env0"
    and h3: "\<not> (snd stray = driver_descriptor env0 \<and> driver_descriptor env0 \<noteq> NO_DESCRIPTOR env0)"
    by (simp_all add: stray_def env0_def)
  note th = stray_connection_only_timestamped[OF h1 h2 h3, of 100 "start env0"]
  have c: "connections ev_stray = [stray]" by (simp add: ev_stray_def stray_def quiet_def)
  have v: "timestamp_map ?s1 = [(30, 100)]" by code_simp
  have k1: "fst stray \<notin> set (disconnections ev_demand)" by code_simp
  have k2: "map_of (timestamp_map ?s1) (fst stray) \<noteq> None" by code_simp
  have k3: "fst stray \<notin> fst ` set (connections ev_demand)" by code_simp
  have k4: "fst stray \<notin> tracked ?s1" by code_simp
  have a: "map_of (timestamp_map (iteration env0 ?s1 ev_demand)) (fst stray) \<noteq> None"
    by (rule th[THEN conjunct2, THEN conjunct1, THEN spec, THEN spec, THEN mp])
       (intro conjI; (rule k1 | rule k2))
  have b: "fst stray \<notin> tracked (iteration env0 ?s1 ev_demand)"
    by (rule th[THEN conjunct2, THEN conjunct2, THEN spec, THEN spec, THEN mp, THEN conjunct2, THEN mp])
       (rule k3, rule k4)
  show ?thesis
    by (intro conjI)
       (rule h1, rule h2, rule h3, rule th[THEN conjunct1], rule c, rule v, rule a, rule b)
qed

end
